theory Spec2Isabelle
  imports Complex_Main "HOL-Library.Multiset" "HOL-Library.Word"
begin

unbundle bit_operations_syntax

section \<open>Data model of the review evaluation console\<close>

text \<open>
  The papers are plain JSON objects. A metric that is absent from the stored object reads as
  \<open>undefined\<close> in the source; it is \<open>None\<close> here. The five rubric metrics are integers, the
  source classification and the comment are strings. Three names of the source are
  reserved words here and are written differently: the field \<open>text\<close> of a review is
  \<open>review_text\<close>, the field \<open>keywords\<close> of a paper is \<open>paper_keywords\<close>, and the string method
  \<open>includes\<close> is \<open>str_includes\<close>.
\<close>

record metrics =
  coverage :: "int option"
  specificity :: "int option"
  correctness :: "int option"
  constructiveness :: "int option"
  stance :: "int option"
  source :: "string option"
  comment :: "string option"

record harmonization_entry =
  model :: string
  htext :: string

record review =
  review_text :: string
  reviewer :: "string option"
  harmonization :: "harmonization_entry list"
  metrics :: metrics

text \<open>
  A paper whose \<open>reviews\<close> field is missing takes the same branches as one whose array is
  empty in every function below (\<open>!paper.reviews || paper.reviews.length === 0\<close>), so the
  field is a list.
\<close>

record paper =
  title :: string
  abstract :: "string option"
  url :: "string option"
  evaluators :: "string list"
  primary_area :: "string list"
  paper_keywords :: "string list"
  status :: string
  reviews :: "review list"

record progress =
  completed :: nat
  total :: nat

section \<open>Progress calculator (evaluate.js, calculateProgress and updatePaperStatus)\<close>

text \<open>\<open>x > 0\<close> on a metric: \<open>undefined > 0\<close> is false.\<close>

definition gt0 :: "int option \<Rightarrow> bool" where
  "gt0 v = (case v of None \<Rightarrow> False | Some n \<Rightarrow> n > 0)"

text \<open>
  \<open>metrics.source && (metrics.source === 'ai' || ... )\<close>: an absent or empty source is
  falsy.
\<close>

definition hasSource :: "metrics \<Rightarrow> bool" where
  "hasSource m =
     (case source m of
        None \<Rightarrow> False
      | Some s \<Rightarrow> s \<noteq> [] \<and> (s = ''ai'' \<or> s = ''human'' \<or> s = ''1'' \<or> s = ''2''))"

definition hasAllMetrics :: "metrics \<Rightarrow> bool" where
  "hasAllMetrics m =
     (gt0 (coverage m) \<and> gt0 (specificity m) \<and> gt0 (correctness m) \<and>
      gt0 (constructiveness m) \<and> gt0 (stance m) \<and> hasSource m)"

definition calculateProgress :: "paper \<Rightarrow> progress" where
  "calculateProgress p =
     (if reviews p = [] then \<lparr>completed = 0, total = 0\<rparr>
      else \<lparr>completed =
              foldl (\<lambda>c r. if hasAllMetrics (metrics r) then c + 1 else c) 0 (reviews p),
            total = length (reviews p)\<rparr>)"

definition updatePaperStatus :: "paper \<Rightarrow> paper" where
  "updatePaperStatus p =
     (let pr = calculateProgress p in
      if completed pr = 0 then p\<lparr>status := ''not_started''\<rparr>
      else if completed pr < total pr then p\<lparr>status := ''in_progress''\<rparr>
      else p\<lparr>status := ''completed''\<rparr>)"

text \<open>
  The completeness predicate in the words of the specification: the five numeric metrics
  are positive and the source is one of the four recognised values.
\<close>

definition review_complete :: "review \<Rightarrow> bool" where
  "review_complete r =
     ((\<exists>n. coverage (metrics r) = Some n \<and> n > 0) \<and>
      (\<exists>n. specificity (metrics r) = Some n \<and> n > 0) \<and>
      (\<exists>n. correctness (metrics r) = Some n \<and> n > 0) \<and>
      (\<exists>n. constructiveness (metrics r) = Some n \<and> n > 0) \<and>
      (\<exists>n. stance (metrics r) = Some n \<and> n > 0) \<and>
      source (metrics r) \<in> {Some ''ai'', Some ''human'', Some ''1'', Some ''2''})"

text \<open>Concrete metrics and papers used to exercise the definitions.\<close>

definition empty_metrics :: metrics where
  "empty_metrics =
     \<lparr>coverage = Some 0, specificity = Some 0, correctness = Some 0,
      constructiveness = Some 0, stance = Some 0, source = Some [], comment = Some []\<rparr>"

definition full_metrics :: metrics where
  "full_metrics =
     \<lparr>coverage = Some 3, specificity = Some 4, correctness = Some 5,
      constructiveness = Some 2, stance = Some 3, source = Some ''human'',
      comment = Some ''ok''\<rparr>"

definition mk_paper :: "string \<Rightarrow> review list \<Rightarrow> paper" where
  "mk_paper st rs =
     \<lparr>title = ''T'', abstract = None, url = None, evaluators = [], primary_area = [],
      paper_keywords = [], status = st, reviews = rs\<rparr>"

section \<open>Filter store and filter predicate (app.js, evaluate.js)\<close>

text \<open>
  A JavaScript \<open>Set\<close> of strings is the list of its elements in insertion order;
  \<open>new Set(array)\<close> keeps the first occurrence of each element.
\<close>

definition new_Set :: "'a list \<Rightarrow> 'a list" where
  "new_Set xs = rev (remdups (rev xs))"

definition has :: "'a list \<Rightarrow> 'a \<Rightarrow> bool" where
  "has s x = (x \<in> set s)"

definition size_Set :: "'a list \<Rightarrow> nat" where
  "size_Set s = length s"

record filters =
  f_evaluators :: "string list"
  f_areas :: "string list"
  f_keywords :: "string list"
  f_titleKeywords :: "string list"
  f_statuses :: "string list"

text \<open>
  \<open>String.prototype.toLowerCase\<close> on the ASCII letters; strings are byte sequences here,
  and every other byte is left as it is.
\<close>

definition lower_char :: "char \<Rightarrow> char" where
  "lower_char c =
     (let n = (of_char c :: nat) in if 65 \<le> n \<and> n \<le> 90 then char_of (n + 32) else c)"

definition toLowerCase :: "string \<Rightarrow> string" where
  "toLowerCase s = map lower_char s"

text \<open>\<open>s.startsWith(t)\<close> and \<open>s.includes(t)\<close>: \<open>t\<close> occurs in \<open>s\<close> at some position.\<close>

fun startsWith :: "string \<Rightarrow> string \<Rightarrow> bool" where
  "startsWith s [] = True"
| "startsWith [] (c # t) = False"
| "startsWith (d # s) (c # t) = (d = c \<and> startsWith s t)"

fun str_includes :: "string \<Rightarrow> string \<Rightarrow> bool" where
  "str_includes [] t = (t = [])"
| "str_includes (d # s) t = (startsWith (d # s) t \<or> str_includes s t)"



text \<open>
  What \<open>localStorage.getItem('reviewFilters')\<close> holds: nothing (or the empty string, which
  is falsy), a text on which \<open>JSON.parse\<close> or the field accesses throw, or an object whose
  five fields are arrays of strings, each of which may be missing (\<open>|| []\<close>).
\<close>

record filtersData =
  d_evaluators :: "string list option"
  d_areas :: "string list option"
  d_keywords :: "string list option"
  d_titleKeywords :: "string list option"
  d_statuses :: "string list option"

datatype stored = Absent | Corrupt | Parsed filtersData

definition or_empty :: "'a list option \<Rightarrow> 'a list" where
  "or_empty v = (case v of None \<Rightarrow> [] | Some xs \<Rightarrow> xs)"

fun loadFilters :: "stored \<Rightarrow> filters option" where
  "loadFilters Absent = None"
| "loadFilters Corrupt = None"
| "loadFilters (Parsed d) =
     Some \<lparr>f_evaluators = new_Set (or_empty (d_evaluators d)),
           f_areas = new_Set (or_empty (d_areas d)),
           f_keywords = new_Set (or_empty (d_keywords d)),
           f_titleKeywords = new_Set (or_empty (d_titleKeywords d)),
           f_statuses = new_Set (or_empty (d_statuses d))\<rparr>"

text \<open>
  The body of \<open>allPapers.forEach((paper, index) => ...)\<close> in \<open>getFilteredPapers\<close>: each
  failed check returns from the callback, otherwise the index is pushed.
\<close>

definition forEach_body :: "filters \<Rightarrow> nat list \<Rightarrow> paper \<times> nat \<Rightarrow> nat list" where
  "forEach_body f indices entry =
     (case entry of (p, index) \<Rightarrow>
      if size_Set (f_evaluators f) > 0 \<and> \<not> list_ex (\<lambda>e. has (f_evaluators f) e) (evaluators p)
        then indices
      else if size_Set (f_areas f) > 0 \<and> \<not> list_ex (\<lambda>a. has (f_areas f) a) (primary_area p)
        then indices
      else if size_Set (f_keywords f) > 0 \<and>
              \<not> list_all (\<lambda>kw. list_ex (\<lambda>k. str_includes (toLowerCase k) (toLowerCase kw))
                                    (paper_keywords p)) (f_keywords f)
        then indices
      else if size_Set (f_titleKeywords f) > 0 \<and>
              \<not> list_all (\<lambda>kw. str_includes (toLowerCase (title p)) (toLowerCase kw))
                    (f_titleKeywords f)
        then indices
      else if size_Set (f_statuses f) > 0 \<and> \<not> has (f_statuses f) (status p)
        then indices
      else indices @ [index])"

definition getFilteredPapers :: "stored \<Rightarrow> paper list \<Rightarrow> nat list" where
  "getFilteredPapers st allPapers =
     (case loadFilters st of
        None \<Rightarrow> map snd (zip allPapers [0..<length allPapers])
      | Some f \<Rightarrow> foldl (forEach_body f) [] (zip allPapers [0..<length allPapers]))"

text \<open>
  Navigation in the workspace. \<open>indexOf\<close> is \<open>-1\<close> for an element that is not in the
  array; the two navigation functions return the index they navigate to, if any.
\<close>

fun indexOf :: "nat list \<Rightarrow> nat \<Rightarrow> int" where
  "indexOf [] x = - 1"
| "indexOf (y # ys) x =
     (if y = x then 0 else (let k = indexOf ys x in if k < 0 then - 1 else k + 1))"








section \<open>JavaScript numbers: IEEE-754 double precision\<close>

text \<open>
  Every JavaScript number is a double. A finite double is a rational number; \<open>rn\<close> rounds a
  rational to the nearest double (53 significant bits, smallest exponent \<open>-1074\<close>, ties to
  the even significand), which is what each arithmetic operation does with its exact
  result. \<open>nbits n\<close> is the length of the binary representation of \<open>n\<close>.
\<close>

function nbits :: "int \<Rightarrow> nat" where
  "nbits n = (if n \<le> 0 then 0 else Suc (nbits (n div 2)))"
  by pat_completeness auto
termination
  by (relation "measure nat") auto

declare nbits.simps [simp del]

definition pow2 :: "int \<Rightarrow> rat" where
  "pow2 e = (if 0 \<le> e then 2 ^ nat e else 1 / 2 ^ nat (- e))"

text \<open>The binary exponent of a positive rational: \<open>2 ^ ilog2 x \<le> x < 2 ^ (ilog2 x + 1)\<close>.\<close>

definition ilog2 :: "rat \<Rightarrow> int" where
  "ilog2 x =
     (if 1 \<le> x then int (nbits \<lfloor>x\<rfloor>) - 1
      else - int (nbits (\<lceil>1 / x\<rceil> - 1)))"

definition round_half_even :: "rat \<Rightarrow> int" where
  "round_half_even m =
     (let f = \<lfloor>m\<rfloor>; r = m - of_int f
      in if 1 / 2 < r \<or> (r = 1 / 2 \<and> odd f) then f + 1 else f)"

definition rn_pos :: "rat \<Rightarrow> rat" where
  "rn_pos x =
     (let e = max (ilog2 x - 52) (- 1074)
      in of_int (round_half_even (x / pow2 e)) * pow2 e)"

definition rn :: "rat \<Rightarrow> rat" where
  "rn x = (if x = 0 then 0 else if 0 < x then rn_pos x else - rn_pos (- x))"

text \<open>
  The result of an operation: \<open>None\<close> stands for the non-finite doubles (the rounded
  result is \<open>2 ^ 1024\<close> or more in magnitude, beyond the largest finite double, or an
  operand was already non-finite).
\<close>

type_synonym double = "rat option"

definition d_round :: "rat \<Rightarrow> double" where
  "d_round x = (if 1024 \<le> ilog2 \<bar>rn x\<bar> then None else Some (rn x))"

definition d_mul :: "double \<Rightarrow> double \<Rightarrow> double" where
  "d_mul a b = (case (a, b) of (Some x, Some y) \<Rightarrow> d_round (x * y) | _ \<Rightarrow> None)"

definition d_add :: "double \<Rightarrow> double \<Rightarrow> double" where
  "d_add a b = (case (a, b) of (Some x, Some y) \<Rightarrow> d_round (x + y) | _ \<Rightarrow> None)"

text \<open>
  \<open>x & 0x7fffffff\<close>: the operand is converted with ToInt32 (a non-finite number gives 0,
  a finite one is truncated towards zero and wrapped to 32 bits), the result of the
  bitwise operation is read as a signed 32-bit integer.
\<close>

definition trunc :: "rat \<Rightarrow> int" where
  "trunc v = (if 0 \<le> v then \<lfloor>v\<rfloor> else \<lceil>v\<rceil>)"

definition toInt32 :: "double \<Rightarrow> 32 word" where
  "toInt32 d = (case d of None \<Rightarrow> 0 | Some v \<Rightarrow> word_of_int (trunc v))"

definition and_0x7fffffff :: "double \<Rightarrow> int" where
  "and_0x7fffffff d = sint (toInt32 d AND 0x7fffffff)"

section \<open>Deterministic shuffle (evaluate.js, seededRandom and shuffleWithSeed)\<close>

text \<open>
  One call of the generator returned by \<open>seededRandom\<close>: the captured variable becomes
  \<open>(state * 1103515245 + 12345) & 0x7fffffff\<close> and the call returns
  \<open>state / 0x7fffffff\<close>.
\<close>

definition lcg_next :: "int \<Rightarrow> int" where
  "lcg_next state =
     and_0x7fffffff (d_add (d_mul (Some (of_int state)) (Some 1103515245)) (Some 12345))"

text \<open>
  After the first call the state lies in \<open>[0, 2^31)\<close>, and an array has fewer than \<open>2^32\<close>
  elements, so the quotient, its product with \<open>i + 1\<close> and \<open>Math.floor\<close> of it are finite
  and not negative.
\<close>

definition rng_value :: "int \<Rightarrow> rat" where
  "rng_value state = rn (of_int state / 2147483647)"

definition draw_index :: "int \<Rightarrow> nat \<Rightarrow> nat" where
  "draw_index state i = nat \<lfloor>rn (rng_value state * of_nat (i + 1))\<rfloor>"

text \<open>
  Arrays are objects on a heap, named by references. An element is \<open>None\<close> where the
  JavaScript array holds \<open>undefined\<close> (or a hole). Reading past the end gives \<open>undefined\<close>;
  writing past the end extends the array.
\<close>

record 'a heap =
  cells :: "nat \<Rightarrow> 'a option list"
  next_ref :: nat

definition js_get :: "'a option list \<Rightarrow> nat \<Rightarrow> 'a option" where
  "js_get xs k = (if k < length xs then xs ! k else None)"

definition js_set :: "'a option list \<Rightarrow> nat \<Rightarrow> 'a option \<Rightarrow> 'a option list" where
  "js_set xs k v =
     (if k < length xs then xs[k := v] else xs @ replicate (k - length xs) None @ [v])"

text \<open>
  \<open>[shuffled[i], shuffled[j]] = [shuffled[j], shuffled[i]]\<close>: both reads happen first,
  then element \<open>i\<close> is assigned, then element \<open>j\<close>.
\<close>

definition swap_elements :: "'a heap \<Rightarrow> nat \<Rightarrow> nat \<Rightarrow> nat \<Rightarrow> 'a heap" where
  "swap_elements h r i j =
     (let vj = js_get (cells h r) j;
          vi = js_get (cells h r) i;
          xs1 = js_set (cells h r) i vj;
          xs2 = js_set xs1 j vi
      in h\<lparr>cells := (cells h)(r := xs2)\<rparr>)"

text \<open>
  The loop \<open>for (let i = shuffled.length - 1; i > 0; i--)\<close> on the array at reference
  \<open>r\<close>, with the generator's captured state passed along.
\<close>

fun shuffle_loop :: "nat \<Rightarrow> nat \<Rightarrow> int \<Rightarrow> 'a heap \<Rightarrow> 'a heap" where
  "shuffle_loop r 0 state h = h"
| "shuffle_loop r (Suc i) state h =
     (let state' = lcg_next state;
          j = draw_index state' (Suc i)
      in shuffle_loop r i state' (swap_elements h r (Suc i) j))"

text \<open>
  \<open>shuffleWithSeed(array, seed)\<close>: a new generator whose state is \<open>seed\<close>, a new array
  holding a copy of the input (\<open>[...array]\<close>), the loop on the copy; the reference of the
  copy is returned. For an empty array \<open>length - 1\<close> is \<open>-1\<close> and the loop does not run, as
  with the truncated subtraction here.
\<close>

definition shuffleWithSeed :: "nat \<Rightarrow> int \<Rightarrow> 'a heap \<Rightarrow> nat \<times> 'a heap" where
  "shuffleWithSeed array seed h =
     (let shuffled = next_ref h;
          h1 = h\<lparr>cells := (cells h)(shuffled := cells h array), next_ref := Suc shuffled\<rparr>
      in (shuffled, shuffle_loop shuffled (length (cells h1 shuffled) - 1) seed h1))"

text \<open>A heap that holds one array, at reference 0.\<close>

definition heap_of :: "'a list \<Rightarrow> 'a heap" where
  "heap_of xs = \<lparr>cells = (\<lambda>r. [])(0 := map Some xs), next_ref = 1\<rparr>"

section \<open>Evaluation workspace (evaluate.js)\<close>

subsection \<open>Configuration\<close>

record config =
  showHarmonizedByDefault :: bool
  defaultHarmonizationModel :: string
  enableModelDropdown :: bool
  enableSplitView :: bool
  showReviewerType :: bool
  shuffleReviews :: bool
  shuffleSeed :: int

text \<open>The outcome of a \<open>fetch\<close> followed by \<open>response.json()\<close>: a value, or an exception.\<close>

datatype 'a fetched = Fetch_failed | Fetched 'a

text \<open>\<open>loadConfig\<close>: the value assigned to \<open>appConfig\<close>.\<close>

definition loadConfig :: "config fetched \<Rightarrow> config" where
  "loadConfig response =
     (case response of
        Fetched c \<Rightarrow> c
      | Fetch_failed \<Rightarrow>
          \<lparr>showHarmonizedByDefault = True,
           defaultHarmonizationModel = ''gpt-4o-mini'',
           enableModelDropdown = False,
           enableSplitView = False,
           showReviewerType = False,
           shuffleReviews = False,
           shuffleSeed = 42\<rparr>)"

subsection \<open>Rendering the reviews\<close>

datatype js_error = TypeError

datatype metric_key = Coverage | Specificity | Correctness | Constructiveness | Stance

fun get_metric :: "metrics \<Rightarrow> metric_key \<Rightarrow> int option" where
  "get_metric m Coverage = coverage m"
| "get_metric m Specificity = specificity m"
| "get_metric m Correctness = correctness m"
| "get_metric m Constructiveness = constructiveness m"
| "get_metric m Stance = stance m"

fun set_metric :: "metrics \<Rightarrow> metric_key \<Rightarrow> int \<Rightarrow> metrics" where
  "set_metric m Coverage v = m\<lparr>coverage := Some v\<rparr>"
| "set_metric m Specificity v = m\<lparr>specificity := Some v\<rparr>"
| "set_metric m Correctness v = m\<lparr>correctness := Some v\<rparr>"
| "set_metric m Constructiveness v = m\<lparr>constructiveness := Some v\<rparr>"
| "set_metric m Stance v = m\<lparr>stance := Some v\<rparr>"

text \<open>\<open>text ? marked.parse(text) : 'No review text available'\<close>.\<close>

datatype html = Marked string | No_review_text

definition to_html :: "string \<Rightarrow> html" where
  "to_html t = (if t \<noteq> [] then Marked t else No_review_text)"

text \<open>
  What is rendered for one review: \<open>r_index\<close> is the \<open>index\<close> of the \<open>map\<close> callback, written
  into \<open>data-review-index\<close> and into the \<open>data-review\<close> attribute of every metric control,
  source button, comment field and clear button of the item.
\<close>

record rendered =
  r_index :: nat
  r_mainHtml :: html
  r_originalHtml :: html
  r_reviewerType :: string
  r_dropdown :: bool
  r_splitViewButton :: bool
  r_stars :: "int list"
  r_isAI :: bool
  r_isHuman :: bool
  r_comment :: string

datatype reviews_view = No_reviews_available | Review_items "rendered list"

fun findIndex :: "('a \<Rightarrow> bool) \<Rightarrow> 'a list \<Rightarrow> nat option" where
  "findIndex P [] = None"
| "findIndex P (x # xs) =
     (if P x then Some 0 else (case findIndex P xs of None \<Rightarrow> None | Some k \<Rightarrow> Some (Suc k)))"

text \<open>
  \<open>renderMetric\<close>, \<open>renderSourceMetric\<close> and the value that \<open>setupCommentInputs\<close> puts into the
  comment field all read \<open>currentPaper.reviews[reviewIndex].metrics\<close>; on an index with no
  review the property access throws.
\<close>

definition metrics_at :: "paper \<Rightarrow> nat \<Rightarrow> js_error + metrics" where
  "metrics_at p reviewIndex =
     (if reviewIndex < length (reviews p) then Inr (metrics (reviews p ! reviewIndex))
      else Inl TypeError)"

definition renderMetric :: "paper \<Rightarrow> metric_key \<Rightarrow> nat \<Rightarrow> js_error + int" where
  "renderMetric p key reviewIndex =
     (case metrics_at p reviewIndex of
        Inl e \<Rightarrow> Inl e
      | Inr m \<Rightarrow> Inr (case get_metric m key of None \<Rightarrow> 0 | Some v \<Rightarrow> v))"

definition renderSourceMetric :: "paper \<Rightarrow> nat \<Rightarrow> js_error + bool \<times> bool" where
  "renderSourceMetric p reviewIndex =
     (case metrics_at p reviewIndex of
        Inl e \<Rightarrow> Inl e
      | Inr m \<Rightarrow>
          (let v = (case source m of None \<Rightarrow> [] | Some s \<Rightarrow> s)
           in Inr (startsWith (toLowerCase v) ''ai'' \<or> v = ''1'', v = ''human'' \<or> v = ''2'')))"

definition render_item :: "config option \<Rightarrow> paper \<Rightarrow> review \<Rightarrow> nat \<Rightarrow> js_error + rendered" where
  "render_item appConfig p rv index =
     (let hasHarmonization = (harmonization rv \<noteq> []);
          showHarmonized =
            (hasHarmonization \<and>
             (case appConfig of None \<Rightarrow> False | Some c \<Rightarrow> showHarmonizedByDefault c));
          defaultHarmonizationIndex =
            (if showHarmonized
             then (case findIndex
                          (\<lambda>h. Some (model h) = map_option defaultHarmonizationModel appConfig)
                          (harmonization rv) of
                     None \<Rightarrow> 0 | Some k \<Rightarrow> k)
             else 0);
          mainText =
            (if showHarmonized then htext (harmonization rv ! defaultHarmonizationIndex)
             else review_text rv);
          dropdown =
            (hasHarmonization \<and>
             (case appConfig of None \<Rightarrow> False | Some c \<Rightarrow> enableModelDropdown c));
          splitView =
            (hasHarmonization \<and>
             (case appConfig of None \<Rightarrow> False | Some c \<Rightarrow> enableSplitView c));
          reviewerType =
            (case appConfig of
               None \<Rightarrow> []
             | Some c \<Rightarrow>
                 (if showReviewerType c
                  then (case reviewer rv of None \<Rightarrow> [] | Some n \<Rightarrow>
                          (if n = [] then [] else ''['' @ n @ '']''))
                  else []))
      in case metrics_at p index of
           Inl e \<Rightarrow> Inl e
         | Inr m \<Rightarrow>
             (case renderSourceMetric p index of
                Inl e \<Rightarrow> Inl e
              | Inr (isAI, isHuman) \<Rightarrow>
                  Inr \<lparr>r_index = index,
                       r_mainHtml = to_html mainText,
                       r_originalHtml = to_html (review_text rv),
                       r_reviewerType = reviewerType,
                       r_dropdown = dropdown,
                       r_splitViewButton = splitView,
                       r_stars =
                         map (\<lambda>key. case get_metric m key of None \<Rightarrow> 0 | Some v \<Rightarrow> v)
                           [Coverage, Specificity, Correctness, Constructiveness, Stance],
                       r_isAI = isAI,
                       r_isHuman = isHuman,
                       r_comment = (case comment m of None \<Rightarrow> [] | Some t \<Rightarrow> t)\<rparr>))"

text \<open>
  The array returned by \<open>shuffleWithSeed\<close> for a newly built array (here the array of
  \<open>{review, originalIndex}\<close> pairs, which \<open>map\<close> has just created).
\<close>

definition shuffled_contents :: "'a list \<Rightarrow> int \<Rightarrow> 'a option list" where
  "shuffled_contents xs seed =
     (let res = shuffleWithSeed 0 seed (heap_of xs) in cells (snd res) (fst res))"

text \<open>\<open>shuffled.map(item => item.review)\<close>: throws on an element that is \<open>undefined\<close>.\<close>

fun map_review :: "(review \<times> nat) option list \<Rightarrow> js_error + review list" where
  "map_review [] = Inr []"
| "map_review (None # items) = Inl TypeError"
| "map_review (Some item # items) =
     (case map_review items of Inl e \<Rightarrow> Inl e | Inr rs \<Rightarrow> Inr (fst item # rs))"

text \<open>
  \<open>parseInt(params.get('paper'))\<close> is \<open>None\<close> when it is \<open>NaN\<close>. The sum
  \<open>appConfig.shuffleSeed + paperIndex\<close> is taken on integers.
\<close>

definition reviewsToRender :: "config option \<Rightarrow> int option \<Rightarrow> paper \<Rightarrow> js_error + review list" where
  "reviewsToRender appConfig paper_param p =
     (case appConfig of
        None \<Rightarrow> Inr (reviews p)
      | Some c \<Rightarrow>
          (if shuffleReviews c
           then (let paperIndex = (case paper_param of None \<Rightarrow> 0 | Some k \<Rightarrow> k);
                     paperSeed = shuffleSeed c + paperIndex;
                     reviewsWithIndices = zip (reviews p) [0..<length (reviews p)];
                     shuffled = shuffled_contents reviewsWithIndices paperSeed
                 in map_review shuffled)
           else Inr (reviews p)))"

fun render_items :: "config option \<Rightarrow> paper \<Rightarrow> review list \<Rightarrow> nat \<Rightarrow> js_error + rendered list" where
  "render_items appConfig p [] index = Inr []"
| "render_items appConfig p (rv # rvs) index =
     (case render_item appConfig p rv index of
        Inl e \<Rightarrow> Inl e
      | Inr item \<Rightarrow>
          (case render_items appConfig p rvs (Suc index) of
             Inl e \<Rightarrow> Inl e
           | Inr items \<Rightarrow> Inr (item # items)))"

definition renderReviews :: "config option \<Rightarrow> int option \<Rightarrow> paper \<Rightarrow> js_error + reviews_view" where
  "renderReviews appConfig paper_param p =
     (if reviews p = [] then Inr No_reviews_available
      else (case reviewsToRender appConfig paper_param p of
              Inl e \<Rightarrow> Inl e
            | Inr rvs \<Rightarrow>
                (case render_items appConfig p rvs 0 of
                   Inl e \<Rightarrow> Inl e
                 | Inr items \<Rightarrow> Inr (Review_items items))))"

subsection \<open>State of the page and its event handlers\<close>

text \<open>
  \<open>saveEvaluation\<close> serialises the whole collection when it is called; the log keeps, for
  each call, what triggered it and the paper as it was sent. \<open>timers\<close> are the timeouts the
  browser holds (identifier, due time, review index of the callback); \<open>setTimeout\<close> hands
  out positive identifiers. \<open>textareas\<close> are the values of the comment fields.
\<close>

datatype save_cause = By_star | By_source | By_clear | By_timer nat | By_blur nat

record workspace =
  currentPaper :: paper
  textareas :: "nat \<Rightarrow> string"
  commentSaveTimeouts :: "nat \<Rightarrow> nat option"
  timers :: "(nat \<times> nat \<times> nat) list"
  next_timer :: nat
  now :: nat
  saves :: "(save_cause \<times> paper) list"

definition saveEvaluation :: "save_cause \<Rightarrow> workspace \<Rightarrow> workspace" where
  "saveEvaluation cause ws = ws\<lparr>saves := (cause, currentPaper ws) # saves ws\<rparr>"

definition update_metrics :: "paper \<Rightarrow> nat \<Rightarrow> (metrics \<Rightarrow> metrics) \<Rightarrow> paper" where
  "update_metrics p reviewIndex f =
     p\<lparr>reviews := (reviews p)[reviewIndex :=
          (reviews p ! reviewIndex)\<lparr>metrics := f (metrics (reviews p ! reviewIndex))\<rparr>]\<rparr>"

text \<open>
  The click handler of a star (\<open>setupStarRatings\<close>) and of a source button
  (\<open>setupSourceButtons\<close>); \<open>reviewIndex\<close> is the \<open>data-review\<close> attribute of the control. On
  an index with no review, \<open>currentPaper.reviews[reviewIndex].metrics\<close> throws.
\<close>

definition click_star :: "nat \<Rightarrow> metric_key \<Rightarrow> int \<Rightarrow> workspace \<Rightarrow> js_error + workspace" where
  "click_star reviewIndex metricKey v ws =
     (if reviewIndex < length (reviews (currentPaper ws))
      then Inr (saveEvaluation By_star
             (ws\<lparr>currentPaper :=
                  updatePaperStatus
                    (update_metrics (currentPaper ws) reviewIndex
                       (\<lambda>m. set_metric m metricKey v))\<rparr>))
      else Inl TypeError)"

definition click_source :: "nat \<Rightarrow> string \<Rightarrow> workspace \<Rightarrow> js_error + workspace" where
  "click_source reviewIndex v ws =
     (if reviewIndex < length (reviews (currentPaper ws))
      then Inr (saveEvaluation By_source
             (ws\<lparr>currentPaper :=
                  updatePaperStatus
                    (update_metrics (currentPaper ws) reviewIndex
                       (\<lambda>m. m\<lparr>source := Some v\<rparr>))\<rparr>))
      else Inl TypeError)"

text \<open>
  The click handler of a Clear Evaluation button (\<open>setupClearEvaluationButtons\<close>); the
  handler exists only for an index that has a review. After the save the reviews are
  rendered again, which fills every comment field from the stored comment.
\<close>

definition clear_metrics :: "metrics \<Rightarrow> metrics" where
  "clear_metrics m =
     m\<lparr>coverage := Some 0, specificity := Some 0, correctness := Some 0,
       constructiveness := Some 0, stance := Some 0, source := Some [], comment := Some []\<rparr>"

definition comment_values :: "paper \<Rightarrow> nat \<Rightarrow> string" where
  "comment_values p k =
     (if k < length (reviews p)
      then (case comment (metrics (reviews p ! k)) of None \<Rightarrow> [] | Some t \<Rightarrow> t)
      else [])"

definition click_clear :: "nat \<Rightarrow> bool \<Rightarrow> workspace \<Rightarrow> workspace" where
  "click_clear reviewIndex confirmed ws =
     (if \<not> reviewIndex < length (reviews (currentPaper ws)) then ws
      else if \<not> confirmed then ws
      else (let ws1 = ws\<lparr>currentPaper :=
                         update_metrics (currentPaper ws) reviewIndex clear_metrics\<rparr>;
                ws2 = saveEvaluation By_clear ws1
            in ws2\<lparr>textareas := comment_values (currentPaper ws2)\<rparr>))"

text \<open>
  The handlers of a comment field (\<open>setupCommentInputs\<close>). \<open>clearTimeout\<close> removes the
  timeout from those the browser holds; \<open>setTimeout(f, 600)\<close> adds one that is due 600 ms
  from now.
\<close>

definition clearTimeout :: "nat \<Rightarrow> workspace \<Rightarrow> workspace" where
  "clearTimeout ident ws = ws\<lparr>timers := filter (\<lambda>t. fst t \<noteq> ident) (timers ws)\<rparr>"

definition setTimeout :: "nat \<Rightarrow> nat \<Rightarrow> workspace \<Rightarrow> nat \<times> workspace" where
  "setTimeout reviewIndex delay ws =
     (next_timer ws,
      ws\<lparr>timers := timers ws @ [(next_timer ws, now ws + delay, reviewIndex)],
         next_timer := Suc (next_timer ws)\<rparr>)"

definition set_comment :: "nat \<Rightarrow> workspace \<Rightarrow> workspace" where
  "set_comment reviewIndex ws =
     ws\<lparr>currentPaper :=
          update_metrics (currentPaper ws) reviewIndex
            (\<lambda>m. m\<lparr>comment := Some (textareas ws reviewIndex)\<rparr>)\<rparr>"

text \<open>A timeout identifier is truthy unless it is 0.\<close>

definition pending_timeout :: "workspace \<Rightarrow> nat \<Rightarrow> nat option" where
  "pending_timeout ws reviewIndex =
     (case commentSaveTimeouts ws reviewIndex of
        None \<Rightarrow> None
      | Some ident \<Rightarrow> (if ident = 0 then None else Some ident))"

definition on_input :: "nat \<Rightarrow> workspace \<Rightarrow> workspace" where
  "on_input reviewIndex ws =
     (let ws1 = set_comment reviewIndex ws;
          ws2 = (case pending_timeout ws1 reviewIndex of
                   None \<Rightarrow> ws1
                 | Some ident \<Rightarrow> clearTimeout ident ws1);
          (ident, ws3) = setTimeout reviewIndex 600 ws2
      in ws3\<lparr>commentSaveTimeouts := (commentSaveTimeouts ws3)(reviewIndex := Some ident)\<rparr>)"

definition on_timeout :: "nat \<Rightarrow> workspace \<Rightarrow> workspace" where
  "on_timeout reviewIndex ws =
     saveEvaluation (By_timer reviewIndex)
       (ws\<lparr>commentSaveTimeouts := (commentSaveTimeouts ws)(reviewIndex := None)\<rparr>)"

definition on_blur :: "nat \<Rightarrow> workspace \<Rightarrow> workspace" where
  "on_blur reviewIndex ws =
     (let ws1 = (case pending_timeout ws reviewIndex of
                   None \<Rightarrow> ws
                 | Some ident \<Rightarrow>
                     (clearTimeout ident ws)
                       \<lparr>commentSaveTimeouts := (commentSaveTimeouts ws)(reviewIndex := None)\<rparr>);
          ws2 = set_comment reviewIndex ws1
      in saveEvaluation (By_blur reviewIndex) ws2)"

text \<open>
  The events of the page. Typing changes the value of the field and then runs the input
  handler. A comment field exists only for an index that has a review. A timeout can run
  once it is due, and is then no longer held by the browser. An event that cannot happen
  in the given state has no successor.
\<close>

datatype event =
    Star nat metric_key int
  | Source nat string
  | Clear nat bool
  | Input nat string
  | Blur nat
  | Tick nat
  | Fire nat

fun step :: "event \<Rightarrow> workspace \<Rightarrow> workspace option" where
  "step (Star r k v) ws = (case click_star r k v ws of Inl e \<Rightarrow> None | Inr ws' \<Rightarrow> Some ws')"
| "step (Source r v) ws = (case click_source r v ws of Inl e \<Rightarrow> None | Inr ws' \<Rightarrow> Some ws')"
| "step (Clear r c) ws =
     (if r < length (reviews (currentPaper ws)) then Some (click_clear r c ws) else None)"
| "step (Input r t) ws =
     (if r < length (reviews (currentPaper ws))
      then Some (on_input r (ws\<lparr>textareas := (textareas ws)(r := t)\<rparr>)) else None)"
| "step (Blur r) ws =
     (if r < length (reviews (currentPaper ws)) then Some (on_blur r ws) else None)"
| "step (Tick dt) ws = Some (ws\<lparr>now := now ws + dt\<rparr>)"
| "step (Fire ident) ws =
     (case find (\<lambda>t. fst t = ident) (timers ws) of
        None \<Rightarrow> None
      | Some (i, due, r) \<Rightarrow>
          (if due \<le> now ws
           then Some (on_timeout r (ws\<lparr>timers := filter (\<lambda>t. fst t \<noteq> ident) (timers ws)\<rparr>))
           else None))"

fun run :: "event list \<Rightarrow> workspace \<Rightarrow> workspace option" where
  "run [] ws = Some ws"
| "run (e # es) ws = (case step e ws of None \<Rightarrow> None | Some ws' \<Rightarrow> run es ws')"

text \<open>The page right after \<open>renderPaper\<close>: no timeout, nothing saved.\<close>

definition initial_workspace :: "paper \<Rightarrow> workspace" where
  "initial_workspace p =
     \<lparr>currentPaper = p, textareas = comment_values p, commentSaveTimeouts = (\<lambda>r. None),
      timers = [], next_timer = 1, now = 0, saves = []\<rparr>"

subsection \<open>Loading the page\<close>

text \<open>
  \<open>loadPapers\<close>: what the page shows after the two fetches. The paper is shown with its
  title and its rendered reviews; an index that is not a number or out of range shows
  \<open>Paper not found\<close>; an exception anywhere in the \<open>try\<close> block shows \<open>Error loading paper\<close>.
\<close>

datatype page =
    Error_loading_paper
  | Paper_not_found
  | Paper_page string reviews_view int workspace

definition loadPapers ::
  "config fetched \<Rightarrow> paper list fetched \<Rightarrow> stored \<Rightarrow> int option \<Rightarrow> config \<times> page" where
  "loadPapers config_response papers_response stored_filters paper_param =
     (let appConfig = loadConfig config_response
      in case papers_response of
           Fetch_failed \<Rightarrow> (appConfig, Error_loading_paper)
         | Fetched allPapers \<Rightarrow>
             (let filteredPaperIndices = getFilteredPapers stored_filters allPapers
              in case paper_param of
                   None \<Rightarrow> (appConfig, Paper_not_found)
                 | Some paperIndex \<Rightarrow>
                     (if 0 \<le> paperIndex \<and> paperIndex < int (length allPapers)
                      then (let currentPaper = allPapers ! nat paperIndex;
                                currentFilteredIndex =
                                  indexOf filteredPaperIndices (nat paperIndex)
                            in case renderReviews (Some appConfig) paper_param currentPaper of
                                 Inl e \<Rightarrow> (appConfig, Error_loading_paper)
                               | Inr view \<Rightarrow>
                                   (appConfig,
                                    Paper_page (title currentPaper) view currentFilteredIndex
                                      (initial_workspace currentPaper)))
                      else (appConfig, Paper_not_found))))"

text \<open>Concrete papers used to exercise the workspace.\<close>

definition review_A :: review where
  "review_A = \<lparr>review_text = ''review A'', reviewer = None,
               harmonization = [\<lparr>model = ''gpt-4o-mini'', htext = ''harmonized A''\<rparr>],
               metrics = empty_metrics\<rparr>"

definition review_B :: review where
  "review_B = \<lparr>review_text = ''review B'', reviewer = None, harmonization = [],
               metrics = full_metrics\<rparr>"

definition paper_AB :: paper where
  "paper_AB = mk_paper ''in_progress'' [review_A, review_B]"

definition paper_done :: paper where
  "paper_done = mk_paper ''completed'' [review_B]"

definition shuffle_config :: config where
  "shuffle_config =
     \<lparr>showHarmonizedByDefault = False, defaultHarmonizationModel = ''gpt-4o-mini'',
      enableModelDropdown = False, enableSplitView = False, showReviewerType = False,
      shuffleReviews = True, shuffleSeed = 42\<rparr>"

text \<open>
  The text the main pane of a review shows under a configuration that prefers the
  harmonized text, in the words of the specification: the harmonization of the configured
  default model, the first harmonization if that model is absent, the original text if
  the review has no harmonization.
\<close>

definition preferred_text :: "string \<Rightarrow> review \<Rightarrow> string" where
  "preferred_text default_model rv =
     (if harmonization rv = [] then review_text rv
      else (case find (\<lambda>h. model h = default_model) (harmonization rv) of
              Some h \<Rightarrow> htext h
            | None \<Rightarrow> htext (hd (harmonization rv))))"

subsection \<open>Notions used to state the debounce property\<close>

text \<open>
  The timeouts the browser holds for the comment field of a review, the number of saves
  that the timeouts of a review have made so far, and the events that type into the
  comment field of a review.
\<close>

definition timers_for :: "workspace \<Rightarrow> nat \<Rightarrow> (nat \<times> nat \<times> nat) list" where
  "timers_for ws r = filter (\<lambda>t. snd (snd t) = r) (timers ws)"

definition timer_saves :: "workspace \<Rightarrow> nat \<Rightarrow> nat" where
  "timer_saves ws r = length (filter (\<lambda>s. fst s = By_timer r) (saves ws))"

fun is_input :: "nat \<Rightarrow> event \<Rightarrow> bool" where
  "is_input r (Input r' t) = (r' = r)"
| "is_input r e = False"

text \<open>
  The table \<open>commentSaveTimeouts\<close> agrees with the browser: identifiers are positive and
  distinct, and every timeout the browser holds is the one recorded for its review.
\<close>

definition timer_inv :: "workspace \<Rightarrow> bool" where
  "timer_inv ws =
     (0 < next_timer ws \<and> distinct (map fst (timers ws)) \<and>
      list_all (\<lambda>t. 0 < fst t \<and> fst t < next_timer ws \<and>
                     commentSaveTimeouts ws (snd (snd t)) = Some (fst t)) (timers ws))"

text \<open>Typing \<open>hello\<close> into the comment field of review 0, one character every 100 ms.\<close>

definition typing_hello :: "event list" where
  "typing_hello =
     [Input 0 ''h'', Tick 100, Input 0 ''he'', Tick 100, Input 0 ''hel'', Tick 100,
      Input 0 ''hell'', Tick 100, Input 0 ''hello'']"

section \<open>Progress calculator: results\<close>

lemma gt0_iff: "gt0 v \<longleftrightarrow> (\<exists>n. v = Some n \<and> n > 0)"
  by (cases v) (simp_all add: gt0_def)

lemma hasSource_iff:
  "hasSource m \<longleftrightarrow> source m \<in> {Some ''ai'', Some ''human'', Some ''1'', Some ''2''}"
  by (cases "source m") (auto simp: hasSource_def)

lemma hasAllMetrics_complete: "hasAllMetrics (metrics r) = review_complete r"
  unfolding hasAllMetrics_def review_complete_def gt0_iff hasSource_iff by (rule refl)

lemma count_foldl:
  "foldl (\<lambda>c r. if P r then c + 1 else c) k xs = k + length (filter P xs)"
  by (induction xs arbitrary: k) simp_all

lemma completed_count:
  "completed (calculateProgress p) = length (filter review_complete (reviews p))"
  by (simp add: calculateProgress_def count_foldl hasAllMetrics_complete)

lemma total_count: "total (calculateProgress p) = length (reviews p)"
  by (simp add: calculateProgress_def)

lemma filter_none_iff: "length (filter P xs) = 0 \<longleftrightarrow> \<not> list_ex P xs"
  by (induction xs) simp_all

lemma filter_all_iff: "length (filter P xs) < length xs \<longleftrightarrow> \<not> list_all P xs"
proof
  assume "length (filter P xs) < length xs"
  then have "filter P xs \<noteq> xs" by auto
  then show "\<not> list_all P xs" by (auto simp: list_all_iff filter_id_conv)
next
  assume "\<not> list_all P xs"
  then obtain x where "x \<in> set xs" "\<not> P x" by (auto simp: list_all_iff)
  then show "length (filter P xs) < length xs" by (rule length_filter_less)
qed

lemma status_updatePaperStatus:
  "status (updatePaperStatus p) =
     (if \<not> list_ex review_complete (reviews p) then ''not_started''
      else if list_all review_complete (reviews p) then ''completed''
      else ''in_progress'')"
proof -
  have a: "completed (calculateProgress p) = 0 \<longleftrightarrow> \<not> list_ex review_complete (reviews p)"
    by (simp only: completed_count filter_none_iff)
  have b: "completed (calculateProgress p) < total (calculateProgress p) \<longleftrightarrow>
           \<not> list_all review_complete (reviews p)"
    by (simp only: completed_count total_count filter_all_iff)
  show ?thesis
    unfolding updatePaperStatus_def Let_def a b by simp
qed

text \<open>
  Claim C4, as stated, at the paper with zero reviews: every review of the paper is
  complete (there is none), yet the recomputed status is not \<open>completed\<close>.
\<close>

theorem C4_empty_paper_counterexample:
  "list_all review_complete (reviews (mk_paper ''not_started'' [])) \<and>
   status (updatePaperStatus (mk_paper ''not_started'' [])) \<noteq> ''completed''"
  by (simp add: status_updatePaperStatus mk_paper_def)

text \<open>
  Claim C4, amended: the recomputed status is \<open>completed\<close> iff the paper has at least one
  review and every review is complete, \<open>not_started\<close> iff no review is complete, and
  \<open>in_progress\<close> in every other case; a review is complete iff its five numeric metrics
  are positive and its source is one of \<open>ai\<close>, \<open>human\<close>, \<open>1\<close>, \<open>2\<close>.
\<close>

theorem C4_status_characterisation:
  "(status (updatePaperStatus p) = ''completed'' \<longleftrightarrow>
      reviews p \<noteq> [] \<and> list_all review_complete (reviews p)) \<and>
   (status (updatePaperStatus p) = ''not_started'' \<longleftrightarrow>
      \<not> list_ex review_complete (reviews p)) \<and>
   (status (updatePaperStatus p) = ''in_progress'' \<longleftrightarrow>
      list_ex review_complete (reviews p) \<and> \<not> list_all review_complete (reviews p)) \<and>
   status (updatePaperStatus p) \<in> {''completed'', ''not_started'', ''in_progress''}"
proof (cases "reviews p")
  case Nil
  then show ?thesis by (simp add: status_updatePaperStatus)
next
  case (Cons r rs)
  then show ?thesis by (auto simp: status_updatePaperStatus)
qed

section \<open>Filter predicate: results\<close>








lemma getFilteredPapers_None:
  "loadFilters st = None \<Longrightarrow> getFilteredPapers st ps = [0..<length ps]"
  by (simp add: getFilteredPapers_def)



lemma lower_char_simps:
  "lower_char (CHR ''G'') = CHR ''g''" "lower_char (CHR ''N'') = CHR ''n''"
  "lower_char (CHR ''E'') = CHR ''e''" "lower_char (CHR ''T'') = CHR ''t''"
  "lower_char (CHR ''W'') = CHR ''w''" "lower_char (CHR ''O'') = CHR ''o''"
  "lower_char (CHR ''R'') = CHR ''r''" "lower_char (CHR ''K'') = CHR ''k''"
  "lower_char (CHR ''S'') = CHR ''s''" "lower_char (CHR ''V'') = CHR ''v''"
  "lower_char (CHR ''P'') = CHR ''p''"
  "lower_char (CHR ''a'') = CHR ''a''" "lower_char (CHR ''c'') = CHR ''c''"
  "lower_char (CHR ''e'') = CHR ''e''" "lower_char (CHR ''f'') = CHR ''f''"
  "lower_char (CHR ''g'') = CHR ''g''" "lower_char (CHR ''h'') = CHR ''h''"
  "lower_char (CHR ''i'') = CHR ''i''" "lower_char (CHR ''k'') = CHR ''k''"
  "lower_char (CHR ''l'') = CHR ''l''" "lower_char (CHR ''n'') = CHR ''n''"
  "lower_char (CHR ''o'') = CHR ''o''" "lower_char (CHR ''p'') = CHR ''p''"
  "lower_char (CHR ''r'') = CHR ''r''" "lower_char (CHR ''s'') = CHR ''s''"
  "lower_char (CHR ''t'') = CHR ''t''" "lower_char (CHR ''u'') = CHR ''u''"
  "lower_char (CHR ''w'') = CHR ''w''" "lower_char (CHR '' '') = CHR '' ''"
  by code_simp+


section \<open>Filtered index list and navigation: results\<close>










section \<open>Double precision rounding: results\<close>

lemma pow2_powi: "pow2 e = 2 powi e"
  by (simp add: pow2_def power_int_def power_inverse inverse_eq_divide power_one_over)

lemma pow2_pos: "0 < pow2 e"
  by (simp add: pow2_powi)

lemma pow2_add: "pow2 (a + b) = pow2 a * pow2 b"
  by (simp add: pow2_powi power_int_add)

lemma pow2_nat: "pow2 (int n) = 2 ^ n"
  by (simp add: pow2_powi)

lemma pow2_neg_nat: "pow2 (- int n) = 1 / 2 ^ n"
  by (simp add: pow2_powi power_int_minus_divide)

lemma pow2_less_iff: "pow2 a < pow2 b \<longleftrightarrow> a < b"
proof
  assume "pow2 a < pow2 b"
  show "a < b"
  proof (rule ccontr)
    assume "\<not> a < b"
    then have "b \<le> a" by simp
    then have "pow2 b \<le> pow2 a"
      unfolding pow2_powi by (intro power_int_increasing) simp_all
    with \<open>pow2 a < pow2 b\<close> show False by simp
  qed
next
  assume "a < b"
  then show "pow2 a < pow2 b"
    unfolding pow2_powi by (intro power_int_strict_increasing) simp_all
qed

lemma pow2_le_iff: "pow2 a \<le> pow2 b \<longleftrightarrow> a \<le> b"
  using pow2_less_iff [of b a] by (simp add: not_less [symmetric])

lemma nbits_pos: "0 < n \<Longrightarrow> 0 < nbits n"
  by (subst nbits.simps) simp

lemma nbits_bounds: "0 < n \<Longrightarrow> 2 ^ (nbits n - 1) \<le> n \<and> n < 2 ^ nbits n"
proof (induction n rule: nbits.induct)
  case (1 n)
  show ?case
  proof (cases "n = 1")
    case True
    have "nbits 1 = 1" by (simp add: nbits.simps [of 1] nbits.simps [of 0])
    with True show ?thesis by simp
  next
    case False
    with "1.prems" have h: "0 < n div 2" by simp
    from "1.prems" have nn: "\<not> n \<le> 0" by simp
    from "1.IH" [OF nn h] have lo: "2 ^ (nbits (n div 2) - 1) \<le> n div 2"
      and hi: "n div 2 < 2 ^ nbits (n div 2)" by simp_all
    have s: "nbits n = Suc (nbits (n div 2))"
      using nn by (subst nbits.simps) simp
    from nbits_pos [OF h] obtain k where k: "nbits (n div 2) = Suc k"
      by (cases "nbits (n div 2)") simp_all
    from lo k have "2 * 2 ^ k \<le> 2 * (n div 2)" by simp
    also have "\<dots> \<le> n" by simp
    finally have a: "2 ^ (nbits n - 1) \<le> n" using s k by simp
    from hi have "n div 2 + 1 \<le> 2 ^ nbits (n div 2)" by simp
    then have "2 * (n div 2) + 2 \<le> 2 * 2 ^ nbits (n div 2)" by simp
    moreover have "n < 2 * (n div 2) + 2" by simp
    ultimately have b: "n < 2 ^ nbits n" using s by simp
    from a b show ?thesis by simp
  qed
qed

lemma ilog2_bounds:
  assumes "0 < x"
  shows "pow2 (ilog2 x) \<le> x \<and> x < pow2 (ilog2 x + 1)"
proof (cases "1 \<le> x")
  case True
  let ?n = "\<lfloor>x\<rfloor>"
  from True have n: "0 < ?n" by simp
  from nbits_pos [OF n] have i: "ilog2 x = int (nbits ?n - 1)"
    and i': "ilog2 x + 1 = int (nbits ?n)"
    using True by (simp_all add: ilog2_def)
  from nbits_bounds [OF n] have lo: "2 ^ (nbits ?n - 1) \<le> ?n" and hi: "?n < 2 ^ nbits ?n"
    by simp_all
  have "(2::rat) ^ (nbits ?n - 1) = of_int (2 ^ (nbits ?n - 1))" by simp
  also have "\<dots> \<le> of_int ?n" using lo by (simp only: of_int_le_iff)
  also have "\<dots> \<le> x" by simp
  finally have a: "pow2 (ilog2 x) \<le> x" unfolding i pow2_nat .
  from hi have "?n + 1 \<le> 2 ^ nbits ?n" by simp
  then have "(of_int (?n + 1) :: rat) \<le> of_int (2 ^ nbits ?n)" by (simp only: of_int_le_iff)
  moreover have "x < of_int (?n + 1)" by linarith
  ultimately have b: "x < pow2 (ilog2 x + 1)" unfolding i' pow2_nat by simp
  from a b show ?thesis by simp
next
  case False
  let ?c = "\<lceil>1 / x\<rceil>"
  let ?m = "nbits (?c - 1)"
  from False assms have "1 < 1 / x" by (simp add: field_simps)
  then have c: "0 < ?c - 1" by linarith
  from False have i: "ilog2 x = - int ?m" by (simp add: ilog2_def)
  from nbits_pos [OF c] obtain k where k: "?m = Suc k" by (cases ?m) simp_all
  from nbits_bounds [OF c] have lo: "2 ^ (?m - 1) \<le> ?c - 1" and hi: "?c - 1 < 2 ^ ?m"
    by simp_all
  from hi have "?c \<le> 2 ^ ?m" by simp
  then have "(of_int ?c :: rat) \<le> of_int (2 ^ ?m)" by (simp only: of_int_le_iff)
  also have "\<dots> = 2 ^ ?m" by simp
  finally have "(of_int ?c :: rat) \<le> 2 ^ ?m" .
  moreover have "1 / x \<le> of_int ?c" by (rule le_of_int_ceiling)
  ultimately have "1 / x \<le> 2 ^ ?m" by (rule order_trans [rotated])
  with assms have "1 / 2 ^ ?m \<le> x" by (simp add: field_simps)
  moreover have "pow2 (ilog2 x) = 1 / 2 ^ ?m"
    unfolding i by (rule pow2_neg_nat)
  ultimately have a: "pow2 (ilog2 x) \<le> x"
    by (simp only:)
  from lo have "(of_int (2 ^ (?m - 1)) :: rat) \<le> of_int (?c - 1)" by (simp only: of_int_le_iff)
  moreover have "(of_int (2 ^ (?m - 1)) :: rat) = 2 ^ k" using k by simp
  moreover have "of_int (?c - 1) < 1 / x" by linarith
  ultimately have "2 ^ k < 1 / x" by linarith
  with assms have xk: "x < 1 / 2 ^ k" by (simp add: field_simps)
  have "ilog2 x + 1 = - int k" using i k by simp
  then have "pow2 (ilog2 x + 1) = 1 / 2 ^ k"
    by (simp only: pow2_neg_nat)
  then have b: "x < pow2 (ilog2 x + 1)" using xk by (simp only:)
  from a b show ?thesis by simp
qed

lemma ilog2_ge: "0 < x \<Longrightarrow> pow2 k \<le> x \<Longrightarrow> k \<le> ilog2 x"
proof -
  assume "0 < x" "pow2 k \<le> x"
  with ilog2_bounds [of x] have "pow2 k < pow2 (ilog2 x + 1)" by simp
  then show ?thesis by (simp add: pow2_less_iff)
qed

lemma ilog2_le: "0 < x \<Longrightarrow> x < pow2 (k + 1) \<Longrightarrow> ilog2 x \<le> k"
proof -
  assume "0 < x" "x < pow2 (k + 1)"
  with ilog2_bounds [of x] have "pow2 (ilog2 x) < pow2 (k + 1)" by simp
  then show ?thesis by (simp add: pow2_less_iff)
qed

lemma round_half_even_of_int: "round_half_even (of_int z) = z"
  by (simp add: round_half_even_def)

lemma round_half_even_bounds:
  "of_int \<lfloor>m\<rfloor> \<le> (of_int (round_half_even m) :: rat) \<and> of_int (round_half_even m) \<le> m + 1 / 2"
proof -
  have f: "of_int \<lfloor>m\<rfloor> \<le> m" by (rule of_int_floor_le)
  show ?thesis
  proof (cases "1 / 2 < m - of_int \<lfloor>m\<rfloor> \<or> (m - of_int \<lfloor>m\<rfloor> = 1 / 2 \<and> odd \<lfloor>m\<rfloor>)")
    case True
    then have r: "round_half_even m = \<lfloor>m\<rfloor> + 1"
      by (simp add: round_half_even_def Let_def)
    from True have "1 / 2 \<le> m - of_int \<lfloor>m\<rfloor>" by linarith
    then show ?thesis unfolding r by simp
  next
    case False
    then have r: "round_half_even m = \<lfloor>m\<rfloor>"
      by (simp add: round_half_even_def Let_def)
    from f have "of_int \<lfloor>m\<rfloor> \<le> m + 1 / 2" by linarith
    then show ?thesis unfolding r by simp
  qed
qed

lemma pow2_52: "pow2 52 = 2 ^ 52"
  by (simp add: pow2_def)

lemma pow2_53: "pow2 53 = 2 ^ 53"
  by (simp add: pow2_def)

lemma rn_pos_normal:
  assumes x: "0 < x" and k: "- 1022 \<le> ilog2 x"
  shows "\<exists>q. rn_pos x = of_int q * pow2 (ilog2 x - 52) \<and> 2 ^ 52 \<le> q \<and>
             of_int q \<le> x / pow2 (ilog2 x - 52) + 1 / 2"
proof -
  let ?e = "ilog2 x - 52"
  let ?m = "x / pow2 ?e"
  let ?q = "round_half_even ?m"
  from k have e: "max ?e (- 1074) = ?e" by simp
  have r: "rn_pos x = of_int ?q * pow2 ?e"
    by (simp add: rn_pos_def e Let_def)
  have split: "pow2 (ilog2 x) = pow2 ?e * 2 ^ 52"
    using pow2_add [of ?e 52] by (simp add: pow2_52)
  have "pow2 (ilog2 x) \<le> x" using ilog2_bounds [OF x] by simp
  with split have "pow2 ?e * 2 ^ 52 \<le> x" by simp
  then have "2 ^ 52 \<le> ?m" using pow2_pos [of ?e] by (simp add: field_simps)
  then have "(2 ^ 52 :: int) \<le> \<lfloor>?m\<rfloor>" by (simp add: le_floor_iff)
  moreover have "\<lfloor>?m\<rfloor> \<le> ?q"
    using round_half_even_bounds [of ?m] by (simp only: of_int_le_iff)
  ultimately have q: "2 ^ 52 \<le> ?q" by linarith
  from round_half_even_bounds [of ?m] have "of_int ?q \<le> ?m + 1 / 2" by simp
  with r q show ?thesis by blast
qed

lemma rn_pos_error:
  assumes x: "0 < x" and k: "- 1022 \<le> ilog2 x"
  shows "pow2 (ilog2 x) \<le> rn_pos x \<and> rn_pos x \<le> x * (1 + 1 / 2 ^ 53)"
proof -
  let ?e = "ilog2 x - 52"
  from rn_pos_normal [OF x k] obtain q where r: "rn_pos x = of_int q * pow2 ?e"
    and q: "2 ^ 52 \<le> q" and u: "of_int q \<le> x / pow2 ?e + 1 / 2" by blast
  have p: "0 < pow2 ?e" by (rule pow2_pos)
  have split: "pow2 (ilog2 x) = 2 ^ 52 * pow2 ?e"
    using pow2_add [of 52 ?e] by (simp add: pow2_52)
  from q have "(2 ^ 52 :: rat) \<le> of_int q"
    by (metis of_int_le_iff of_int_numeral of_int_power)
  then have "2 ^ 52 * pow2 ?e \<le> of_int q * pow2 ?e"
    using p by (simp only: mult_le_cancel_right_pos)
  then have lo: "pow2 (ilog2 x) \<le> rn_pos x" by (simp only: split r)
  from u have "of_int q * pow2 ?e \<le> (x / pow2 ?e + 1 / 2) * pow2 ?e"
    using p by (simp only: mult_le_cancel_right_pos)
  also have "\<dots> = x + pow2 ?e / 2" using p by (simp add: field_simps)
  finally have h: "rn_pos x \<le> x + pow2 ?e / 2" by (simp only: r)
  from ilog2_bounds [OF x] have "2 ^ 52 * pow2 ?e \<le> x" by (simp only: split)
  then have "pow2 ?e / 2 \<le> x / 2 ^ 53" by (simp add: field_simps)
  with h have "rn_pos x \<le> x + x / 2 ^ 53" by linarith
  also have "\<dots> = x * (1 + 1 / 2 ^ 53)" by (simp add: field_simps)
  finally show ?thesis using lo by blast
qed

lemma rn_pos_large:
  assumes x: "2 ^ 53 \<le> x"
  shows "\<exists>z. rn_pos x = of_int (2 * z) \<and> 2 ^ 52 \<le> z"
proof -
  from x have x0: "0 < x" by (rule less_le_trans [rotated]) simp
  have "pow2 53 \<le> x" using x by (simp add: pow2_53)
  from ilog2_ge [OF x0 this] have k: "53 \<le> ilog2 x" .
  then have k': "- 1022 \<le> ilog2 x" by simp
  from rn_pos_normal [OF x0 k'] obtain q where r: "rn_pos x = of_int q * pow2 (ilog2 x - 52)"
    and q: "2 ^ 52 \<le> q" by blast
  define d where "d = nat (ilog2 x - 53)"
  from k have d: "ilog2 x - 52 = int (Suc d)" by (simp add: d_def)
  have "rn_pos x = of_int (2 * (q * 2 ^ d))"
    unfolding r d pow2_nat by simp
  moreover have "2 ^ 52 \<le> q * 2 ^ d"
  proof -
    have "(1::int) \<le> 2 ^ d" by simp
    with q have "2 ^ 52 * 1 \<le> q * 2 ^ d" by (intro mult_mono) simp_all
    then show ?thesis by simp
  qed
  ultimately show ?thesis by blast
qed

lemma rn_pos_exact:
  assumes n: "0 < n" and b: "n < 2 ^ 53"
  shows "rn_pos (of_int n) = of_int n"
proof -
  let ?x = "of_int n :: rat"
  from n have x0: "0 < ?x" by simp
  have "?x < of_int (2 ^ 53)" using b by (simp only: of_int_less_iff)
  then have "?x < pow2 (52 + 1)" by (simp add: pow2_53)
  from ilog2_le [OF x0 this] have "max (ilog2 ?x - 52) (- 1074) \<le> 0" by simp
  then have "max (ilog2 ?x - 52) (- 1074) = - int (nat (- max (ilog2 ?x - 52) (- 1074)))"
    by simp
  then obtain d where d: "max (ilog2 ?x - 52) (- 1074) = - int d" ..
  have "?x / pow2 (- int d) = of_int (n * 2 ^ d)"
    by (simp add: pow2_neg_nat)
  then have "round_half_even (?x / pow2 (- int d)) = n * 2 ^ d"
    by (simp only: round_half_even_of_int)
  then show ?thesis
    by (simp add: rn_pos_def d pow2_neg_nat Let_def)
qed

lemma rn_exact:
  assumes "\<bar>n\<bar> < 2 ^ 53"
  shows "rn (of_int n) = of_int n"
proof -
  consider "n = 0" | "0 < n" | "n < 0" by linarith
  then show ?thesis
  proof cases
    case 1
    then show ?thesis by (simp add: rn_def)
  next
    case 2
    with assms rn_pos_exact [of n] show ?thesis by (simp add: rn_def)
  next
    case 3
    with assms rn_pos_exact [of "- n"] show ?thesis by (simp add: rn_def)
  qed
qed

lemma rn_large:
  assumes "2 ^ 53 \<le> \<bar>x\<bar>"
  shows "\<exists>z. rn x = of_int (2 * z) \<and> 2 ^ 52 \<le> \<bar>z\<bar>"
proof (cases "0 < x")
  case True
  with assms rn_pos_large [of x] obtain z where "rn_pos x = of_int (2 * z)" "2 ^ 52 \<le> z"
    by auto
  with True have "rn x = of_int (2 * z) \<and> 2 ^ 52 \<le> \<bar>z\<bar>" by (simp add: rn_def)
  then show ?thesis by blast
next
  case False
  with assms have neg: "x < 0" and "2 ^ 53 \<le> - x" by auto
  with rn_pos_large [of "- x"] obtain z where "rn_pos (- x) = of_int (2 * z)" "2 ^ 52 \<le> z"
    by auto
  with neg have "rn x = of_int (2 * (- z)) \<and> 2 ^ 52 \<le> \<bar>- z\<bar>" by (simp add: rn_def)
  then show ?thesis by blast
qed

lemma rn_nonneg: "0 \<le> x \<Longrightarrow> 0 \<le> rn x"
proof -
  assume "0 \<le> x"
  have "0 \<le> rn_pos x" if "0 < x"
  proof -
    have "0 < x / pow2 (max (ilog2 x - 52) (- 1074))"
      using that pow2_pos by simp
    then have "0 \<le> \<lfloor>x / pow2 (max (ilog2 x - 52) (- 1074))\<rfloor>" by simp
    moreover have "\<lfloor>x / pow2 (max (ilog2 x - 52) (- 1074))\<rfloor>
        \<le> round_half_even (x / pow2 (max (ilog2 x - 52) (- 1074)))"
      using round_half_even_bounds [of "x / pow2 (max (ilog2 x - 52) (- 1074))"]
      by (simp only: of_int_le_iff)
    ultimately have "0 \<le> round_half_even (x / pow2 (max (ilog2 x - 52) (- 1074)))" by linarith
    then show ?thesis
      using pow2_pos [of "max (ilog2 x - 52) (- 1074)"] by (simp add: rn_pos_def Let_def)
  qed
  with \<open>0 \<le> x\<close> show ?thesis by (auto simp: rn_def)
qed

section \<open>Linear congruential generator: results\<close>

lemma and_mask31:
  "sint ((word_of_int t :: 32 word) AND 0x7fffffff) = t mod 2 ^ 31"
proof -
  have m: "(0x7fffffff :: 32 word) = mask 31"
    by (simp add: mask_eq_exp_minus_1)
  have "uint (mask 31 :: 32 word) = mask 31"
    by (simp add: uint_mask_eq)
  moreover have "uint (word_of_int t :: 32 word) = take_bit 32 t"
    by (simp add: uint_word_of_int_eq)
  ultimately have "uint ((word_of_int t :: 32 word) AND mask 31) = take_bit 32 t AND mask 31"
    by (simp only: uint_and)
  also have "\<dots> = take_bit 31 (take_bit 32 t)"
    by (simp only: take_bit_eq_mask)
  also have "\<dots> = take_bit 31 t" by simp
  finally have u: "uint ((word_of_int t :: 32 word) AND mask 31) = take_bit 31 t" .
  have "signed_take_bit 31 (take_bit 31 t) = take_bit 31 t"
    by (rule signed_take_bit_int_eq_self) (simp_all add: take_bit_eq_mod)
  then have "sint ((word_of_int t :: 32 word) AND mask 31) = take_bit 31 t"
    by (simp add: sint_uint u)
  then show ?thesis
    by (simp add: m take_bit_eq_mod)
qed

lemma and_0x7fffffff_None: "and_0x7fffffff None = 0"
  by (simp add: and_0x7fffffff_def toInt32_def)

lemma and_0x7fffffff_Some: "and_0x7fffffff (Some v) = trunc v mod 2 ^ 31"
  unfolding and_0x7fffffff_def toInt32_def by (simp only: option.case and_mask31)

lemma trunc_of_int: "trunc (of_int z) = z"
  by (simp add: trunc_def)

lemma lcg_next_range: "0 \<le> lcg_next state \<and> lcg_next state < 2147483648"
proof (cases "d_add (d_mul (Some (of_int state)) (Some 1103515245)) (Some 12345)")
  case None
  then show ?thesis by (simp add: lcg_next_def and_0x7fffffff_None)
next
  case (Some v)
  then show ?thesis by (simp add: lcg_next_def and_0x7fffffff_Some)
qed

text \<open>
  The sum that \<open>lcg_next\<close> masks: either non-finite, or an integer that is the exact value
  \<open>state * 1103515245 + 12345\<close>, or an even integer, or an integer in the window just above
  \<open>- 2^53\<close>.
\<close>

lemma lcg_sum_cases:
  assumes "d_add (d_mul (Some (of_int state)) (Some 1103515245)) (Some 12345) = Some v"
  shows "\<exists>z. v = of_int z \<and>
           ((z = state * 1103515245 + 12345 \<and> \<bar>z\<bar> < 2 ^ 53) \<or> even z \<or>
            (- (2 ^ 53) < z \<and> z \<le> 12345 - 2 ^ 53))"
proof -
  let ?p = "rn (of_int state * 1103515245)"
  have e: "(of_int state :: rat) * 1103515245 = of_int (state * 1103515245)" by simp
  from assms have v: "v = rn (?p + 12345)"
    by (auto simp: d_add_def d_mul_def d_round_def split: if_splits)
  obtain p where p: "?p = of_int p"
    and pc: "(p = state * 1103515245 \<and> \<bar>p\<bar> < 2 ^ 53) \<or> (even p \<and> 2 ^ 53 \<le> \<bar>p\<bar>)"
  proof (cases "\<bar>state * 1103515245\<bar> < 2 ^ 53")
    case True
    from rn_exact [OF this] True that show ?thesis unfolding e by blast
  next
    case False
    then have "(2 ^ 53 :: int) \<le> \<bar>state * 1103515245\<bar>" by simp
    then have "(of_int (2 ^ 53) :: rat) \<le> of_int \<bar>state * 1103515245\<bar>"
      by (simp only: of_int_le_iff)
    then have "(2 ^ 53 :: rat) \<le> \<bar>of_int (state * 1103515245)\<bar>" by simp
    from rn_large [OF this] obtain z where z: "?p = of_int (2 * z)" and zb: "2 ^ 52 \<le> \<bar>z\<bar>"
      unfolding e by blast
    from zb have "2 ^ 53 \<le> \<bar>2 * z\<bar>" by simp
    with z that show ?thesis by (metis dvd_triv_left)
  qed
  have s: "?p + 12345 = of_int (p + 12345)" by (simp add: p)
  show ?thesis
  proof (cases "\<bar>p + 12345\<bar> < 2 ^ 53")
    case True
    from rn_exact [OF this] have vz: "v = of_int (p + 12345)" by (simp only: v s)
    from pc show ?thesis
    proof
      assume "p = state * 1103515245 \<and> \<bar>p\<bar> < 2 ^ 53"
      with vz True show ?thesis by blast
    next
      assume "even p \<and> 2 ^ 53 \<le> \<bar>p\<bar>"
      with True have "- (2 ^ 53) < p + 12345 \<and> p + 12345 \<le> 12345 - 2 ^ 53" by linarith
      with vz show ?thesis by blast
    qed
  next
    case False
    then have "(2 ^ 53 :: int) \<le> \<bar>p + 12345\<bar>" by simp
    then have "(of_int (2 ^ 53) :: rat) \<le> of_int \<bar>p + 12345\<bar>"
      by (simp only: of_int_le_iff)
    then have "(2 ^ 53 :: rat) \<le> \<bar>of_int (p + 12345)\<bar>" by simp
    from rn_large [OF this] obtain z where "rn (of_int (p + 12345)) = of_int (2 * z)" by blast
    then have "v = of_int (2 * z)" by (simp only: v s)
    then show ?thesis by (metis dvd_triv_left)
  qed
qed

lemma lcg_exact_not_max:
  fixes state :: int
  assumes b: "\<bar>state * 1103515245 + 12345\<bar> < 2 ^ 53"
  shows "(state * 1103515245 + 12345) mod 2 ^ 31 \<noteq> 2147483647"
proof
  assume h: "(state * 1103515245 + 12345) mod 2 ^ 31 = 2147483647"
  have "(state * 1103515245) mod 2147483648 =
          ((state * 1103515245 + 12345) mod 2147483648 - 12345) mod 2147483648"
    by (simp add: mod_diff_left_eq)
  also have "\<dots> = 2147471302" using h by simp
  finally have A: "(state * 1103515245) mod 2147483648 = 2147471302" .
  have "state * (1103515245 * 1857678181) = state + 2147483648 * (state * 954594553)"
    by simp
  then have "(state * (1103515245 * 1857678181)) mod 2147483648 = state mod 2147483648"
    by (simp only: mod_mult_self2)
  moreover have "(state * (1103515245 * 1857678181)) mod 2147483648 =
      ((state * 1103515245) mod 2147483648 * 1857678181) mod 2147483648"
    by (simp only: mod_mult_left_eq mult.assoc)
  ultimately have "state mod 2147483648 = (2147471302 * 1857678181) mod 2147483648"
    by (simp only: A)
  then have m: "state mod 2147483648 = 230538014" by simp
  from b have r: "- 8162279 < state" "state < 8162279" by simp_all
  show False
  proof (cases "0 \<le> state")
    case True
    with r have "state mod 2147483648 = state" by simp
    with m r show False by simp
  next
    case False
    with r have "(state + 2147483648) mod 2147483648 = state + 2147483648"
      by (intro mod_pos_pos_trivial) simp_all
    then have "state mod 2147483648 = state + 2147483648" by simp
    with m r show False by simp
  qed
qed

lemma lcg_next_not_max: "lcg_next state \<noteq> 2147483647"
proof (cases "d_add (d_mul (Some (of_int state)) (Some 1103515245)) (Some 12345)")
  case None
  then show ?thesis by (simp add: lcg_next_def and_0x7fffffff_None)
next
  case (Some v)
  from lcg_sum_cases [OF Some] obtain z where v: "v = of_int z"
    and c: "(z = state * 1103515245 + 12345 \<and> \<bar>z\<bar> < 2 ^ 53) \<or> even z \<or>
            (- (2 ^ 53) < z \<and> z \<le> 12345 - 2 ^ 53)" by blast
  have n: "lcg_next state = z mod 2 ^ 31"
    by (simp only: lcg_next_def Some and_0x7fffffff_Some v trunc_of_int)
  from c consider "z = state * 1103515245 + 12345" "\<bar>z\<bar> < 2 ^ 53" | "even z"
    | "- (2 ^ 53) < z" "z \<le> 12345 - 2 ^ 53" by blast
  then show ?thesis
  proof cases
    case 1
    with lcg_exact_not_max [of state] show ?thesis unfolding n by simp
  next
    case 2
    then have "even (z mod 2 ^ 31)" by (simp add: dvd_mod_iff)
    then show ?thesis unfolding n by auto
  next
    case 3
    have "z mod 2 ^ 31 = (z + 4194304 * 2 ^ 31) mod 2 ^ 31" by (simp only: mod_mult_self1)
    also have "\<dots> = z + 4194304 * 2 ^ 31"
      using 3 by (intro mod_pos_pos_trivial) simp_all
    finally show ?thesis unfolding n using 3 by simp
  qed
qed

lemma rn_0: "rn 0 = 0"
  by (simp add: rn_def)

lemma rn_error:
  assumes "pow2 (- 31) \<le> x"
  shows "pow2 (- 31) \<le> rn x \<and> rn x \<le> x * (1 + 1 / 2 ^ 53)"
proof -
  have "0 < pow2 (- 31)" by (rule pow2_pos)
  with assms have x: "0 < x" by linarith
  from ilog2_ge [OF x assms] have k: "- 31 \<le> ilog2 x" .
  then have k': "- 1022 \<le> ilog2 x" by simp
  from k have "pow2 (- 31) \<le> pow2 (ilog2 x)" by (simp only: pow2_le_iff)
  with rn_pos_error [OF x k'] x show ?thesis by (simp add: rn_def)
qed

lemma draw_index_le:
  assumes s0: "0 \<le> state" and s1: "state < 2147483647"
  shows "draw_index state i \<le> i"
proof (cases "state = 0")
  case True
  then show ?thesis by (simp add: draw_index_def rng_value_def rn_0)
next
  case False
  let ?x = "of_int state / 2147483647 :: rat"
  let ?y = "rn ?x"
  let ?n = "of_nat (i + 1) :: rat"
  let ?u = "1 + 1 / 2 ^ 53 :: rat"
  have p31: "pow2 (- 31) = 1 / 2147483648" by (simp add: pow2_def)
  from False s0 have "1 \<le> state" by simp
  then have "(1::rat) \<le> of_int state" by simp
  then have xl: "pow2 (- 31) \<le> ?x" unfolding p31 by (simp add: field_simps)
  from s1 have "state \<le> 2147483646" by simp
  then have "(of_int state :: rat) \<le> 2147483646" by simp
  then have xu: "?x \<le> 2147483646 / 2147483647" by (simp add: field_simps)
  from rn_error [OF xl] have yl: "pow2 (- 31) \<le> ?y" and yu: "?y \<le> ?x * ?u" by simp_all
  have n1: "1 \<le> ?n" by simp
  have y0: "0 \<le> ?y" using yl pow2_pos [of "- 31"] by linarith
  have "?y * 1 \<le> ?y * ?n" using y0 n1 by (rule mult_left_mono [rotated])
  with yl have zl: "pow2 (- 31) \<le> ?y * ?n" by simp
  from rn_error [OF zl] have "rn (?y * ?n) \<le> (?y * ?n) * ?u" by simp
  also have "\<dots> = (?y * ?u) * ?n" by (simp only: mult_ac)
  also have "\<dots> \<le> ((?x * ?u) * ?u) * ?n"
    using yu by (intro mult_right_mono) simp_all
  also have "\<dots> = (?x * (?u * ?u)) * ?n" by (simp only: mult_ac)
  also have "\<dots> \<le> ((2147483646 / 2147483647) * (?u * ?u)) * ?n"
    using xu by (intro mult_right_mono) simp_all
  also have "\<dots> < 1 * ?n"
    by (intro mult_strict_right_mono) simp_all
  finally have "rn (?y * ?n) < of_nat (i + 1)" by simp
  then have "\<lfloor>rn (?y * ?n)\<rfloor> < int (i + 1)" by (simp add: floor_less_iff)
  then show ?thesis by (simp add: draw_index_def rng_value_def)
qed

text \<open>The conversion of the drawn index to a natural number loses nothing.\<close>

lemma draw_index_exact:
  "int (draw_index (lcg_next state) i) = \<lfloor>rn (rng_value (lcg_next state) * of_nat (i + 1))\<rfloor>"
proof -
  have "0 \<le> rng_value (lcg_next state)"
    using lcg_next_range [of state] by (simp add: rng_value_def rn_nonneg)
  then have "0 \<le> rn (rng_value (lcg_next state) * of_nat (i + 1))"
    by (intro rn_nonneg mult_nonneg_nonneg) simp_all
  then show ?thesis by (simp add: draw_index_def)
qed

lemma draw_in_bounds: "draw_index (lcg_next state) i \<le> i"
  using lcg_next_range [of state] lcg_next_not_max [of state]
  by (intro draw_index_le) simp_all

section \<open>Deterministic shuffle: results\<close>

lemma swap_elements_cells:
  assumes "i < length (cells h r)" and "j < length (cells h r)"
  shows "cells (swap_elements h r i j) r = (cells h r)[i := cells h r ! j, j := cells h r ! i]"
  using assms by (simp add: swap_elements_def js_get_def js_set_def Let_def)

lemma swap_elements_other: "a \<noteq> r \<Longrightarrow> cells (swap_elements h r i j) a = cells h a"
  by (simp add: swap_elements_def Let_def)

lemma swap_elements_next_ref: "next_ref (swap_elements h r i j) = next_ref h"
  by (simp add: swap_elements_def Let_def)

lemma swap_elements_cong:
  "cells h r = cells h' r' \<Longrightarrow>
   cells (swap_elements h r i j) r = cells (swap_elements h' r' i j) r'"
  by (simp add: swap_elements_def Let_def)

lemma shuffle_loop_perm:
  assumes "i < length (cells h r) \<or> i = 0"
  shows "length (cells (shuffle_loop r i state h) r) = length (cells h r) \<and>
         mset (cells (shuffle_loop r i state h) r) = mset (cells h r)"
  using assms
proof (induction i arbitrary: state h)
  case 0
  show ?case by simp
next
  case (Suc i)
  let ?st = "lcg_next state"
  let ?j = "draw_index ?st (Suc i)"
  let ?h = "swap_elements h r (Suc i) ?j"
  from Suc.prems have i: "Suc i < length (cells h r)" by simp
  have "?j \<le> Suc i" by (rule draw_in_bounds)
  with i have j: "?j < length (cells h r)" by simp
  have c: "cells ?h r = (cells h r)[Suc i := cells h r ! ?j, ?j := cells h r ! Suc i]"
    using i j by (rule swap_elements_cells)
  have l: "length (cells ?h r) = length (cells h r)" by (simp add: c)
  have m: "mset (cells ?h r) = mset (cells h r)"
    unfolding c using j i by (rule mset_swap)
  from i l have "i < length (cells ?h r) \<or> i = 0" by simp
  from Suc.IH [OF this, of ?st] l m show ?case by (simp add: Let_def)
qed

lemma shuffle_loop_other:
  "a \<noteq> r \<Longrightarrow> cells (shuffle_loop r i state h) a = cells h a"
  by (induction i arbitrary: state h) (simp_all add: Let_def swap_elements_other)

lemma shuffle_loop_next_ref: "next_ref (shuffle_loop r i state h) = next_ref h"
  by (induction i arbitrary: state h) (simp_all add: Let_def swap_elements_next_ref)

lemma shuffle_loop_cong:
  "cells h r = cells h' r' \<Longrightarrow>
   cells (shuffle_loop r i state h) r = cells (shuffle_loop r' i state h') r'"
proof (induction i arbitrary: state h h')
  case 0
  then show ?case by simp
next
  case (Suc i)
  from swap_elements_cong [OF Suc.prems]
  have "cells (swap_elements h r (Suc i) (draw_index (lcg_next state) (Suc i))) r =
        cells (swap_elements h' r' (Suc i) (draw_index (lcg_next state) (Suc i))) r'" .
  from Suc.IH [OF this] show ?case by (simp add: Let_def)
qed

lemma shuffleWithSeed_fst: "fst (shuffleWithSeed array seed h) = next_ref h"
  by (simp add: shuffleWithSeed_def Let_def)

lemma shuffleWithSeed_next_ref:
  "next_ref (snd (shuffleWithSeed array seed h)) = Suc (next_ref h)"
  by (simp add: shuffleWithSeed_def Let_def shuffle_loop_next_ref)

lemma shuffleWithSeed_other:
  "a \<noteq> next_ref h \<Longrightarrow> cells (snd (shuffleWithSeed array seed h)) a = cells h a"
  by (simp add: shuffleWithSeed_def Let_def shuffle_loop_other)

lemma shuffleWithSeed_cong:
  assumes "cells h array = cells h' array'"
  shows "cells (snd (shuffleWithSeed array seed h)) (fst (shuffleWithSeed array seed h)) =
         cells (snd (shuffleWithSeed array' seed h')) (fst (shuffleWithSeed array' seed h'))"
proof -
  let ?h1 = "h\<lparr>cells := (cells h)(next_ref h := cells h array), next_ref := Suc (next_ref h)\<rparr>"
  let ?h1' = "h'\<lparr>cells := (cells h')(next_ref h' := cells h' array'),
                 next_ref := Suc (next_ref h')\<rparr>"
  have "cells ?h1 (next_ref h) = cells ?h1' (next_ref h')" using assms by simp
  from shuffle_loop_cong [OF this] assms show ?thesis
    by (simp add: shuffleWithSeed_def Let_def)
qed

text \<open>
  Claim C6: for every input array and every integer seed, the swap index drawn at step
  \<open>i\<close> lies in \<open>[0, i]\<close>, and the array returned by \<open>shuffleWithSeed\<close> has the length and
  the multiset of elements of its input. An index beyond the end would have extended the
  array, so the unchanged length says that every read and write was in bounds.
\<close>

theorem C6_shuffle_is_permutation:
  "draw_index (lcg_next state) i \<le> i \<and>
   length (cells (snd (shuffleWithSeed array seed h)) (fst (shuffleWithSeed array seed h))) =
     length (cells h array) \<and>
   mset (cells (snd (shuffleWithSeed array seed h)) (fst (shuffleWithSeed array seed h))) =
     mset (cells h array)"
proof -
  let ?r = "next_ref h"
  let ?h1 = "h\<lparr>cells := (cells h)(?r := cells h array), next_ref := Suc ?r\<rparr>"
  have c: "cells ?h1 ?r = cells h array" by simp
  have "length (cells ?h1 ?r) - 1 < length (cells ?h1 ?r) \<or> length (cells ?h1 ?r) - 1 = 0"
    by (cases "cells ?h1 ?r") simp_all
  from shuffle_loop_perm [OF this, of seed] c
  have "length (cells (shuffle_loop ?r (length (cells ?h1 ?r) - 1) seed ?h1) ?r) =
          length (cells h array) \<and>
        mset (cells (shuffle_loop ?r (length (cells ?h1 ?r) - 1) seed ?h1) ?r) =
          mset (cells h array)"
    by (simp only:)
  then show ?thesis
    using draw_in_bounds [of state i] by (simp add: shuffleWithSeed_def Let_def)
qed

text \<open>
  Claim C7: two invocations of \<open>shuffleWithSeed\<close> with the same seed on arrays with the same
  contents return arrays with the same contents, in whatever state of the heap each
  invocation runs (each creates its own generator); and the input array, an object
  allocated before the call, holds after the call what it held before.
\<close>

theorem C7_shuffle_deterministic:
  assumes "array < next_ref h" and "cells h array = cells h' array'"
  shows "cells (snd (shuffleWithSeed array seed h)) (fst (shuffleWithSeed array seed h)) =
         cells (snd (shuffleWithSeed array' seed h')) (fst (shuffleWithSeed array' seed h')) \<and>
         cells (snd (shuffleWithSeed array seed h)) array = cells h array \<and>
         fst (shuffleWithSeed array seed h) \<noteq> array"
proof -
  from assms(1) have "array \<noteq> next_ref h" by simp
  with shuffleWithSeed_cong [OF assms(2), of seed] show ?thesis
    by (simp add: shuffleWithSeed_other shuffleWithSeed_fst)
qed

text \<open>
  Concrete runs of the generator. In exact integer arithmetic the state 230538014 would be
  followed by \<open>0x7fffffff\<close>; the product exceeds \<open>2^53\<close>, is rounded to a multiple of 32, and
  the next state is 0.
\<close>

lemma lcg_next_rounded: "lcg_next 230538014 = 0"
  by code_simp

lemma lcg_next_42: "lcg_next 42 = 1250496027"
  by code_simp

lemma lcg_next_42_2: "lcg_next 1250496027 = 1116302080"
  by code_simp

lemma lcg_next_43: "lcg_next 43 = 206527624"
  by code_simp

lemma draw_42_2: "draw_index 1250496027 2 = 1"
  by code_simp

lemma draw_42_1: "draw_index 1116302080 1 = 1"
  by code_simp

lemma draw_43_1: "draw_index 206527624 1 = 0"
  by code_simp

lemma shuffle_42_abc:
  "cells (snd (shuffleWithSeed 0 42 (heap_of [a, b, c]))) (fst (shuffleWithSeed 0 42 (heap_of [a, b, c])))
     = [Some a, Some c, Some b]"
proof -
  have n: "(2::nat) = Suc (Suc 0)" by simp
  show ?thesis
    by (simp add: shuffleWithSeed_def heap_of_def Let_def n lcg_next_42 lcg_next_42_2
        swap_elements_def js_get_def js_set_def)
      (simp add: draw_42_2 [unfolded n] draw_42_1 [simplified])
qed

lemma shuffle_43_ab:
  "cells (snd (shuffleWithSeed 0 43 (heap_of [a, b]))) (fst (shuffleWithSeed 0 43 (heap_of [a, b])))
     = [Some b, Some a]"
  by (simp add: shuffleWithSeed_def heap_of_def Let_def lcg_next_43
        swap_elements_def js_get_def js_set_def draw_43_1 [simplified])

theorem C7_shuffle_deterministic_witness:
  "(0::nat) < next_ref (heap_of [CHR ''a'', CHR ''b'', CHR ''c'']) \<and>
   cells (snd (shuffleWithSeed 0 42 (heap_of [CHR ''a'', CHR ''b'', CHR ''c'']))) 0 =
     [Some CHR ''a'', Some CHR ''b'', Some CHR ''c''] \<and>
   cells (snd (shuffleWithSeed 0 42 (snd (shuffleWithSeed 0 42 (heap_of [CHR ''a'', CHR ''b'', CHR ''c'']))))) 2 =
     [Some CHR ''a'', Some CHR ''c'', Some CHR ''b''] \<and>
   cells (snd (shuffleWithSeed 0 42 (snd (shuffleWithSeed 0 42 (heap_of [CHR ''a'', CHR ''b'', CHR ''c'']))))) 1 =
     [Some CHR ''a'', Some CHR ''c'', Some CHR ''b'']"
proof -
  let ?h = "heap_of [CHR ''a'', CHR ''b'', CHR ''c'']"
  let ?h1 = "snd (shuffleWithSeed 0 42 ?h)"
  let ?h2 = "snd (shuffleWithSeed 0 42 ?h1)"
  have a: "(0::nat) < next_ref ?h" by (simp add: heap_of_def)
  have c0: "cells ?h 0 = [Some CHR ''a'', Some CHR ''b'', Some CHR ''c'']"
    by (simp add: heap_of_def)
  have r1: "fst (shuffleWithSeed 0 42 ?h) = 1"
    by (simp add: shuffleWithSeed_fst heap_of_def)
  have r2: "fst (shuffleWithSeed 0 42 ?h1) = 2"
    by (simp add: shuffleWithSeed_fst shuffleWithSeed_next_ref heap_of_def)
  from C7_shuffle_deterministic [OF a refl, of 42]
  have u: "cells ?h1 0 = cells ?h 0" by simp
  have a1: "(0::nat) < next_ref ?h1" by (simp add: shuffleWithSeed_next_ref)
  from C7_shuffle_deterministic [OF a1 u, of 42]
  have d: "cells ?h2 2 = cells ?h1 1" and k: "cells ?h2 0 = cells ?h1 0"
    by (simp_all add: r1 r2)
  have o: "cells ?h1 1 = [Some CHR ''a'', Some CHR ''c'', Some CHR ''b'']"
    using shuffle_42_abc [of "CHR ''a''" "CHR ''b''" "CHR ''c''"] by (simp add: r1)
  have p: "cells ?h2 1 = cells ?h1 1"
    by (rule shuffleWithSeed_other) (simp add: shuffleWithSeed_next_ref heap_of_def)
  from a u c0 d o p show ?thesis by simp
qed

section \<open>Rating, source and clear handlers: results\<close>

lemma filter_update_count:
  "i < length xs \<Longrightarrow>
   length (filter P (xs[i := y])) + (if P (xs ! i) then 1 else 0) =
   length (filter P xs) + (if P y then 1 else 0)"
proof (induction xs arbitrary: i)
  case Nil
  then show ?case by simp
next
  case (Cons x xs)
  show ?case
  proof (cases i)
    case 0
    then show ?thesis by simp
  next
    case (Suc k)
    with Cons.prems have "k < length xs" by simp
    from Cons.IH [OF this] Suc show ?thesis by simp
  qed
qed

lemma clear_metrics_eq: "clear_metrics m = empty_metrics"
  by (cases m) (simp add: clear_metrics_def empty_metrics_def)

lemma not_complete_empty_metrics: "metrics r = empty_metrics \<Longrightarrow> \<not> review_complete r"
  by (simp add: review_complete_def empty_metrics_def)

lemma reviews_update_metrics:
  "reviews (update_metrics p i f) =
     (reviews p)[i := (reviews p ! i)\<lparr>metrics := f (metrics (reviews p ! i))\<rparr>]"
  by (simp add: update_metrics_def)

lemma currentPaper_click_clear:
  "i < length (reviews (currentPaper ws)) \<Longrightarrow>
   currentPaper (click_clear i True ws) = update_metrics (currentPaper ws) i clear_metrics"
  by (simp add: click_clear_def Let_def saveEvaluation_def)

text \<open>
  Claim C9: after Clear Evaluation is confirmed for a review, the metrics of that review
  are exactly \<open>{coverage: 0, specificity: 0, correctness: 0, constructiveness: 0, stance: 0,
  source: '', comment: ''}\<close>; the total of the progress is unchanged, and if the review was
  complete before, the number of completed reviews is one less than before. Without the
  confirmation nothing changes.
\<close>

theorem C9_clear_evaluation:
  assumes "reviewIndex < length (reviews (currentPaper ws))"
  shows "metrics (reviews (currentPaper (click_clear reviewIndex True ws)) ! reviewIndex) =
           \<lparr>coverage = Some 0, specificity = Some 0, correctness = Some 0,
            constructiveness = Some 0, stance = Some 0, source = Some [], comment = Some []\<rparr> \<and>
         total (calculateProgress (currentPaper (click_clear reviewIndex True ws))) =
           total (calculateProgress (currentPaper ws)) \<and>
         (review_complete (reviews (currentPaper ws) ! reviewIndex) \<longrightarrow>
            completed (calculateProgress (currentPaper (click_clear reviewIndex True ws))) + 1 =
              completed (calculateProgress (currentPaper ws))) \<and>
         click_clear reviewIndex False ws = ws"
proof -
  let ?p = "currentPaper ws"
  let ?r = "(reviews ?p ! reviewIndex)\<lparr>metrics := clear_metrics (metrics (reviews ?p ! reviewIndex))\<rparr>"
  have cp: "currentPaper (click_clear reviewIndex True ws) =
              update_metrics ?p reviewIndex clear_metrics"
    using assms by (rule currentPaper_click_clear)
  have rs: "reviews (currentPaper (click_clear reviewIndex True ws)) =
              (reviews ?p)[reviewIndex := ?r]"
    by (simp only: cp reviews_update_metrics)
  have m: "metrics ?r = empty_metrics" by (simp add: clear_metrics_eq)
  have a: "metrics (reviews (currentPaper (click_clear reviewIndex True ws)) ! reviewIndex) =
             empty_metrics"
    using assms m by (simp add: rs)
  have t: "total (calculateProgress (currentPaper (click_clear reviewIndex True ws))) =
             total (calculateProgress ?p)"
    by (simp add: total_count rs)
  have c: "completed (calculateProgress (currentPaper (click_clear reviewIndex True ws))) + 1 =
             completed (calculateProgress ?p)"
    if "review_complete (reviews ?p ! reviewIndex)"
    using filter_update_count [OF assms, of review_complete ?r] that
      not_complete_empty_metrics [OF m]
    by (simp add: completed_count rs)
  have n: "click_clear reviewIndex False ws = ws"
    by (simp add: click_clear_def)
  from a t c n show ?thesis by (simp add: empty_metrics_def)
qed

lemma review_B_complete: "review_complete review_B"
  by (simp add: review_complete_def review_B_def full_metrics_def)

theorem C9_clear_evaluation_witness:
  "(1::nat) < length (reviews (currentPaper (initial_workspace paper_AB))) \<and>
   review_complete (reviews (currentPaper (initial_workspace paper_AB)) ! 1) \<and>
   metrics (reviews (currentPaper (click_clear 1 True (initial_workspace paper_AB))) ! 1) =
     \<lparr>coverage = Some 0, specificity = Some 0, correctness = Some 0,
      constructiveness = Some 0, stance = Some 0, source = Some [], comment = Some []\<rparr> \<and>
   completed (calculateProgress (currentPaper (initial_workspace paper_AB))) = 1 \<and>
   completed (calculateProgress (currentPaper (click_clear 1 True (initial_workspace paper_AB)))) = 0 \<and>
   total (calculateProgress (currentPaper (click_clear 1 True (initial_workspace paper_AB)))) = 2"
proof -
  have l: "(1::nat) < length (reviews (currentPaper (initial_workspace paper_AB)))"
    by (simp add: initial_workspace_def paper_AB_def mk_paper_def)
  have b: "reviews (currentPaper (initial_workspace paper_AB)) ! 1 = review_B"
    by (simp add: initial_workspace_def paper_AB_def mk_paper_def)
  have a: "\<not> review_complete review_A"
    by (simp add: review_complete_def review_A_def empty_metrics_def)
  have c1: "completed (calculateProgress (currentPaper (initial_workspace paper_AB))) = 1"
    using a review_B_complete
    by (simp add: completed_count initial_workspace_def paper_AB_def mk_paper_def)
  have t1: "total (calculateProgress (currentPaper (initial_workspace paper_AB))) = 2"
    by (simp add: total_count initial_workspace_def paper_AB_def mk_paper_def)
  from C9_clear_evaluation [OF l] l b review_B_complete c1 t1 show ?thesis
    by simp
qed

text \<open>
  Setting a star rating or the source recomputes the status: after the handler the stored
  status is the one computed from the reviews.
\<close>

lemma updatePaperStatus_idem: "updatePaperStatus (updatePaperStatus p) = updatePaperStatus p"
proof -
  have "calculateProgress (updatePaperStatus p) = calculateProgress p"
    by (simp add: updatePaperStatus_def calculateProgress_def Let_def)
  then show ?thesis
    by (simp add: updatePaperStatus_def [of "updatePaperStatus p"])
      (simp add: updatePaperStatus_def Let_def)
qed

lemma click_star_status:
  "click_star r k v ws = Inr ws' \<Longrightarrow>
   currentPaper ws' = updatePaperStatus (currentPaper ws')"
  by (auto simp: click_star_def saveEvaluation_def updatePaperStatus_idem split: if_splits)

lemma click_source_status:
  "click_source r v ws = Inr ws' \<Longrightarrow>
   currentPaper ws' = updatePaperStatus (currentPaper ws')"
  by (auto simp: click_source_def saveEvaluation_def updatePaperStatus_idem split: if_splits)

text \<open>
  Claim C3 at a paper whose only review is complete and whose status is \<open>completed\<close>: after
  Clear Evaluation is confirmed, the status of the paper in memory, and of the paper that
  was sent to be saved, is still \<open>completed\<close>, while the status computed from the reviews
  is \<open>not_started\<close>.
\<close>

theorem C3_clear_leaves_stale_status:
  "status (currentPaper (click_clear 0 True (initial_workspace paper_done))) = ''completed'' \<and>
   map (status \<circ> snd) (saves (click_clear 0 True (initial_workspace paper_done))) =
     [''completed''] \<and>
   status (updatePaperStatus (currentPaper (click_clear 0 True (initial_workspace paper_done)))) =
     ''not_started''"
proof -
  have l: "(0::nat) < length (reviews (currentPaper (initial_workspace paper_done)))"
    by (simp add: initial_workspace_def paper_done_def mk_paper_def)
  have e: "\<not> review_complete (review_B\<lparr>metrics := empty_metrics\<rparr>)"
    by (rule not_complete_empty_metrics) simp
  have s: "status (currentPaper (click_clear 0 True (initial_workspace paper_done))) = ''completed''"
    by (simp add: currentPaper_click_clear [OF l])
      (simp add: update_metrics_def initial_workspace_def paper_done_def mk_paper_def)
  have v: "map (status \<circ> snd) (saves (click_clear 0 True (initial_workspace paper_done))) =
             [''completed'']"
    by (simp add: click_clear_def Let_def saveEvaluation_def update_metrics_def
        initial_workspace_def paper_done_def mk_paper_def)
  have "reviews (currentPaper (click_clear 0 True (initial_workspace paper_done))) =
          [review_B\<lparr>metrics := empty_metrics\<rparr>]"
    by (simp add: currentPaper_click_clear [OF l] reviews_update_metrics clear_metrics_eq)
      (simp add: initial_workspace_def paper_done_def mk_paper_def)
  then have u: "status (updatePaperStatus
      (currentPaper (click_clear 0 True (initial_workspace paper_done)))) = ''not_started''"
    using e by (simp add: status_updatePaperStatus)
  from s v u show ?thesis by simp
qed

section \<open>Rendering and loading: results\<close>

lemma findIndex_Some: "findIndex P xs = Some k \<Longrightarrow> find P xs = Some (xs ! k)"
proof (induction xs arbitrary: k)
  case Nil
  then show ?case by simp
next
  case (Cons x xs)
  then show ?case by (auto split: if_splits option.splits)
qed

lemma findIndex_None_iff: "findIndex P xs = None \<longleftrightarrow> find P xs = None"
  by (induction xs) (auto split: option.splits)

lemma main_text_preferred:
  assumes "harmonization rv \<noteq> []"
  shows "htext (harmonization rv !
            (case findIndex (\<lambda>h. model h = dm) (harmonization rv) of None \<Rightarrow> 0 | Some k \<Rightarrow> k)) =
         preferred_text dm rv"
proof (cases "findIndex (\<lambda>h. model h = dm) (harmonization rv)")
  case None
  then have "find (\<lambda>h. model h = dm) (harmonization rv) = None"
    by (simp add: findIndex_None_iff)
  with None assms show ?thesis by (simp add: preferred_text_def hd_conv_nth)
next
  case (Some k)
  from findIndex_Some [OF Some] Some assms show ?thesis
    by (simp add: preferred_text_def)
qed

lemma render_item_defaults:
  assumes "index < length (reviews p)" and "showHarmonizedByDefault c"
  shows "\<exists>item. render_item (Some c) p rv index = Inr item \<and> r_index item = index \<and>
           r_mainHtml item = to_html (preferred_text (defaultHarmonizationModel c) rv) \<and>
           r_originalHtml item = to_html (review_text rv)"
proof -
  have m: "metrics_at p index = Inr (metrics (reviews p ! index))"
    using assms(1) by (simp add: metrics_at_def)
  obtain ai hu where s: "renderSourceMetric p index = Inr (ai, hu)"
    by (simp add: renderSourceMetric_def m Let_def)
  show ?thesis
  proof (cases "harmonization rv = []")
    case True
    then show ?thesis
      using assms(2) by (simp add: render_item_def m s Let_def preferred_text_def)
  next
    case False
    from main_text_preferred [OF False, of "defaultHarmonizationModel c"] False assms(2)
    show ?thesis by (simp add: render_item_def m s Let_def)
  qed
qed

lemma render_items_defaults:
  assumes "index + length rvs \<le> length (reviews p)" and "showHarmonizedByDefault c"
  shows "\<exists>items. render_items (Some c) p rvs index = Inr items \<and>
           map r_index items = [index..<index + length rvs] \<and>
           map r_mainHtml items =
             map (\<lambda>rv. to_html (preferred_text (defaultHarmonizationModel c) rv)) rvs \<and>
           map r_originalHtml items = map (\<lambda>rv. to_html (review_text rv)) rvs"
  using assms(1)
proof (induction rvs arbitrary: index)
  case Nil
  show ?case by simp
next
  case (Cons rv rvs)
  from Cons.prems have i: "index < length (reviews p)"
    and r: "Suc index + length rvs \<le> length (reviews p)" by simp_all
  from render_item_defaults [OF i assms(2), of rv] obtain item
    where it: "render_item (Some c) p rv index = Inr item" "r_index item = index"
      "r_mainHtml item = to_html (preferred_text (defaultHarmonizationModel c) rv)"
      "r_originalHtml item = to_html (review_text rv)" by blast
  from Cons.IH [OF r] obtain items
    where its: "render_items (Some c) p rvs (Suc index) = Inr items"
      "map r_index items = [Suc index..<Suc index + length rvs]"
      "map r_mainHtml items =
         map (\<lambda>rv. to_html (preferred_text (defaultHarmonizationModel c) rv)) rvs"
      "map r_originalHtml items = map (\<lambda>rv. to_html (review_text rv)) rvs" by blast
  have "[index..<index + length (rv # rvs)] = index # [Suc index..<Suc index + length rvs]"
    by (simp add: upt_rec)
  with it its show ?case by simp
qed

text \<open>
  Claim C2, as stated, at a failed configuration fetch: the fallback configuration has
  \<open>showHarmonizedByDefault\<close> set, and the page shows the harmonized text of a review that has
  one.
\<close>

theorem C2_fallback_shows_harmonized_counterexample:
  "showHarmonizedByDefault (fst (loadPapers Fetch_failed (Fetched [paper_AB]) Absent (Some 0))) \<and>
   (case snd (loadPapers Fetch_failed (Fetched [paper_AB]) Absent (Some 0)) of
      Paper_page t (Review_items items) k ws \<Rightarrow>
        map r_mainHtml items = [Marked ''harmonized A'', Marked ''review B'']
    | _ \<Rightarrow> False)"
  by (simp add: loadPapers_def loadConfig_def renderReviews_def reviewsToRender_def
      paper_AB_def mk_paper_def review_A_def review_B_def render_item_def metrics_at_def
      renderSourceMetric_def Let_def to_html_def empty_metrics_def full_metrics_def
      toLowerCase_def lower_char_simps)

text \<open>
  Claim C2, amended: if the configuration fetch fails, the workspace proceeds with the
  defaults \<open>showHarmonizedByDefault = true\<close> (model \<open>gpt-4o-mini\<close>), no dropdown, no split view,
  no reviewer type, \<open>shuffleReviews = false\<close>, and rendering is not blocked: for a paper
  index in range the page shows the paper, its reviews in their stored order, each with
  the harmonized text of the default model (the first harmonization if that model is
  absent, the original text if the review has no harmonization).
\<close>

theorem C2_config_fallback:
  "loadConfig Fetch_failed =
     \<lparr>showHarmonizedByDefault = True, defaultHarmonizationModel = ''gpt-4o-mini'',
      enableModelDropdown = False, enableSplitView = False, showReviewerType = False,
      shuffleReviews = False, shuffleSeed = 42\<rparr> \<and>
   (0 \<le> k \<and> k < int (length ps) \<longrightarrow>
      (\<exists>view. snd (loadPapers Fetch_failed (Fetched ps) st (Some k)) =
                 Paper_page (title (ps ! nat k)) view
                   (indexOf (getFilteredPapers st ps) (nat k))
                   (initial_workspace (ps ! nat k)) \<and>
               (reviews (ps ! nat k) = [] \<longrightarrow> view = No_reviews_available) \<and>
               (reviews (ps ! nat k) \<noteq> [] \<longrightarrow>
                  (\<exists>items. view = Review_items items \<and>
                     map r_index items = [0..<length (reviews (ps ! nat k))] \<and>
                     map r_originalHtml items =
                       map (\<lambda>rv. to_html (review_text rv)) (reviews (ps ! nat k)) \<and>
                     map r_mainHtml items =
                       map (\<lambda>rv. to_html (preferred_text ''gpt-4o-mini'' rv))
                         (reviews (ps ! nat k))))))"
proof -
  let ?c = "loadConfig Fetch_failed"
  have c: "?c = \<lparr>showHarmonizedByDefault = True, defaultHarmonizationModel = ''gpt-4o-mini'',
      enableModelDropdown = False, enableSplitView = False, showReviewerType = False,
      shuffleReviews = False, shuffleSeed = 42\<rparr>"
    by (simp add: loadConfig_def)
  have sh: "showHarmonizedByDefault ?c" and ns: "\<not> shuffleReviews ?c"
    and dm: "defaultHarmonizationModel ?c = ''gpt-4o-mini''"
    by (simp_all add: c)
  have main: "\<exists>view. snd (loadPapers Fetch_failed (Fetched ps) st (Some k)) =
                 Paper_page (title (ps ! nat k)) view
                   (indexOf (getFilteredPapers st ps) (nat k))
                   (initial_workspace (ps ! nat k)) \<and>
               (reviews (ps ! nat k) = [] \<longrightarrow> view = No_reviews_available) \<and>
               (reviews (ps ! nat k) \<noteq> [] \<longrightarrow>
                  (\<exists>items. view = Review_items items \<and>
                     map r_index items = [0..<length (reviews (ps ! nat k))] \<and>
                     map r_originalHtml items =
                       map (\<lambda>rv. to_html (review_text rv)) (reviews (ps ! nat k)) \<and>
                     map r_mainHtml items =
                       map (\<lambda>rv. to_html (preferred_text ''gpt-4o-mini'' rv))
                         (reviews (ps ! nat k))))"
    if k: "0 \<le> k" "k < int (length ps)"
  proof (cases "reviews (ps ! nat k) = []")
    case True
    then have "renderReviews (Some ?c) (Some k) (ps ! nat k) = Inr No_reviews_available"
      by (simp add: renderReviews_def)
    with k True show ?thesis by (simp add: loadPapers_def Let_def)
  next
    case False
    let ?p = "ps ! nat k"
    have rr: "reviewsToRender (Some ?c) (Some k) ?p = Inr (reviews ?p)"
      using ns by (simp add: reviewsToRender_def)
    have "0 + length (reviews ?p) \<le> length (reviews ?p)" by simp
    from render_items_defaults [OF this sh] obtain items
      where its: "render_items (Some ?c) ?p (reviews ?p) 0 = Inr items"
        "map r_index items = [0..<0 + length (reviews ?p)]"
        "map r_mainHtml items =
           map (\<lambda>rv. to_html (preferred_text (defaultHarmonizationModel ?c) rv)) (reviews ?p)"
        "map r_originalHtml items = map (\<lambda>rv. to_html (review_text rv)) (reviews ?p)"
      by blast
    have "renderReviews (Some ?c) (Some k) ?p = Inr (Review_items items)"
      using False by (simp add: renderReviews_def rr its(1))
    with k False its show ?thesis
      by (simp add: loadPapers_def Let_def dm)
  qed
  from c main show ?thesis by blast
qed

theorem C2_config_fallback_witness:
  "(0::int) \<le> 0 \<and> (0::int) < int (length [paper_AB]) \<and> reviews ([paper_AB] ! nat 0) \<noteq> [] \<and>
   (\<exists>items. snd (loadPapers Fetch_failed (Fetched [paper_AB]) Absent (Some 0)) =
       Paper_page ''T'' (Review_items items) 0 (initial_workspace paper_AB) \<and>
     map r_index items = [0, 1] \<and>
     map r_mainHtml items = [Marked ''harmonized A'', Marked ''review B''])"
proof -
  have r: "reviews ([paper_AB] ! nat 0) \<noteq> []" "reviews paper_AB = [review_A, review_B]"
    "title paper_AB = ''T''"
    by (simp_all add: paper_AB_def mk_paper_def)
  have u: "[0..<length [review_A, review_B]] = [0, 1]" by (simp add: upt_rec)
  have p: "preferred_text ''gpt-4o-mini'' review_A = ''harmonized A''"
    "preferred_text ''gpt-4o-mini'' review_B = ''review B''"
    by (simp_all add: preferred_text_def review_A_def review_B_def)
  have i: "indexOf (getFilteredPapers Absent [paper_AB]) (nat 0) = 0"
    by (simp add: getFilteredPapers_None)
  from C2_config_fallback [of 0 "[paper_AB]" Absent] r u p i show ?thesis
    by (auto simp: to_html_def)
qed

lemma shuffled_AB:
  "shuffled_contents [(review_A, 0), (review_B, Suc 0)] 43 =
     [Some (review_B, Suc 0), Some (review_A, 0)]"
  using shuffle_43_ab [of "(review_A, 0)" "(review_B, Suc 0)"]
  by (simp add: shuffled_contents_def Let_def)

lemma reviewsToRender_AB:
  "reviewsToRender (Some shuffle_config) (Some 1) paper_AB = Inr [review_B, review_A]"
proof -
  have z: "zip (reviews paper_AB) [0..<length (reviews paper_AB)] =
             [(review_A, 0), (review_B, Suc 0)]"
    by (simp add: paper_AB_def mk_paper_def upt_rec)
  have s: "shuffleReviews shuffle_config" "shuffleSeed shuffle_config + 1 = 43"
    by (simp_all add: shuffle_config_def)
  show ?thesis
    unfolding reviewsToRender_def by (simp add: Let_def s z shuffled_AB)
qed

text \<open>
  Claim C1 at a paper with the reviews A and B, base seed 42 and paper index 1: the
  reviews are displayed in the order B, A. The item at display position 0 shows the text
  of B, but its controls carry index 0 and show the metrics stored for A; a click on a
  star at that position sets the metric of A (index 0 of the stored array) and leaves B,
  the displayed review, as it was.
\<close>

theorem C1_controls_bound_to_display_position:
  "renderReviews (Some shuffle_config) (Some 1) paper_AB =
     Inr (Review_items
       [\<lparr>r_index = 0, r_mainHtml = Marked ''review B'', r_originalHtml = Marked ''review B'',
         r_reviewerType = [], r_dropdown = False, r_splitViewButton = False,
         r_stars = [0, 0, 0, 0, 0], r_isAI = False, r_isHuman = False, r_comment = []\<rparr>,
        \<lparr>r_index = 1, r_mainHtml = Marked ''review A'', r_originalHtml = Marked ''review A'',
         r_reviewerType = [], r_dropdown = False, r_splitViewButton = False,
         r_stars = [3, 4, 5, 2, 3], r_isAI = False, r_isHuman = True, r_comment = ''ok''\<rparr>]) \<and>
   map (coverage \<circ> metrics) (reviews paper_AB) = [Some 0, Some 3] \<and>
   map_sum id (\<lambda>ws. map (coverage \<circ> metrics) (reviews (currentPaper ws)))
     (click_star 0 Coverage 5 (initial_workspace paper_AB)) = Inr [Some 5, Some 3]"
proof -
  have r: "renderReviews (Some shuffle_config) (Some 1) paper_AB =
     Inr (Review_items
       [\<lparr>r_index = 0, r_mainHtml = Marked ''review B'', r_originalHtml = Marked ''review B'',
         r_reviewerType = [], r_dropdown = False, r_splitViewButton = False,
         r_stars = [0, 0, 0, 0, 0], r_isAI = False, r_isHuman = False, r_comment = []\<rparr>,
        \<lparr>r_index = 1, r_mainHtml = Marked ''review A'', r_originalHtml = Marked ''review A'',
         r_reviewerType = [], r_dropdown = False, r_splitViewButton = False,
         r_stars = [3, 4, 5, 2, 3], r_isAI = False, r_isHuman = True, r_comment = ''ok''\<rparr>])"
    unfolding renderReviews_def reviewsToRender_AB
    by (simp add: paper_AB_def mk_paper_def review_A_def review_B_def render_item_def
        metrics_at_def renderSourceMetric_def Let_def to_html_def empty_metrics_def
        full_metrics_def shuffle_config_def toLowerCase_def lower_char_simps)
  have m: "map (coverage \<circ> metrics) (reviews paper_AB) = [Some 0, Some 3]"
    by (simp add: paper_AB_def mk_paper_def review_A_def review_B_def empty_metrics_def
        full_metrics_def)
  have c: "map_sum id (\<lambda>ws. map (coverage \<circ> metrics) (reviews (currentPaper ws)))
     (click_star 0 Coverage 5 (initial_workspace paper_AB)) = Inr [Some 5, Some 3]"
    by (simp add: click_star_def initial_workspace_def saveEvaluation_def update_metrics_def
        paper_AB_def mk_paper_def review_A_def review_B_def empty_metrics_def full_metrics_def
        updatePaperStatus_def Let_def)
  from r m c show ?thesis by simp
qed

section \<open>Debounced comment saves: results\<close>

lemma find_SomeD: "find P xs = Some x \<Longrightarrow> P x \<and> x \<in> set xs"
  by (induction xs) (auto split: if_splits)

lemma timer_inv_initial: "timer_inv (initial_workspace p)"
  by (simp add: timer_inv_def initial_workspace_def)

lemma timer_inv_clearTimeout: "timer_inv ws \<Longrightarrow> timer_inv (clearTimeout ident ws)"
  by (auto simp: timer_inv_def clearTimeout_def list_all_iff distinct_map_filter)

lemma timers_for_cleared:
  assumes "timer_inv ws"
  shows "timers_for (case pending_timeout ws r of None \<Rightarrow> ws | Some ident \<Rightarrow> clearTimeout ident ws) r = []"
proof (cases "commentSaveTimeouts ws r")
  case None
  with assms have "timers_for ws r = []"
    by (auto simp: timer_inv_def timers_for_def list_all_iff filter_empty_conv)
  with None show ?thesis by (simp add: pending_timeout_def)
next
  case (Some ident)
  with assms have a: "\<forall>t \<in> set (timers ws). snd (snd t) = r \<longrightarrow> fst t = ident \<and> 0 < ident"
    by (auto simp: timer_inv_def list_all_iff)
  show ?thesis
  proof (cases "ident = 0")
    case True
    with a have "timers_for ws r = []" by (auto simp: timers_for_def filter_empty_conv)
    with Some True show ?thesis by (simp add: pending_timeout_def)
  next
    case False
    with a Some show ?thesis
      by (auto simp: pending_timeout_def timers_for_def clearTimeout_def filter_empty_conv)
  qed
qed

lemma timer_inv_set_comment: "timer_inv (set_comment r ws) = timer_inv ws"
  by (simp add: timer_inv_def set_comment_def)

lemma timer_inv_textareas: "timer_inv (ws\<lparr>textareas := f\<rparr>) = timer_inv ws"
  by (simp add: timer_inv_def)

lemma timer_inv_saveEvaluation: "timer_inv (saveEvaluation c ws) = timer_inv ws"
  by (simp add: timer_inv_def saveEvaluation_def)

lemma timer_inv_currentPaper: "timer_inv (ws\<lparr>currentPaper := p\<rparr>) = timer_inv ws"
  by (simp add: timer_inv_def)

lemma timer_inv_on_input:
  assumes "timer_inv ws"
  shows "timer_inv (on_input r ws)"
proof -
  let ?ws1 = "set_comment r ws"
  let ?ws2 = "case pending_timeout ?ws1 r of None \<Rightarrow> ?ws1 | Some ident \<Rightarrow> clearTimeout ident ?ws1"
  from assms have i1: "timer_inv ?ws1" by (simp add: timer_inv_set_comment)
  then have i2: "timer_inv ?ws2"
    by (cases "pending_timeout ?ws1 r") (simp_all add: timer_inv_clearTimeout)
  from timers_for_cleared [OF i1, of r] have none: "timers_for ?ws2 r = []" .
  then have nr: "\<forall>t \<in> set (timers ?ws2). snd (snd t) \<noteq> r"
    by (auto simp: timers_for_def filter_empty_conv)
  have o: "on_input r ws =
      ?ws2\<lparr>timers := timers ?ws2 @ [(next_timer ?ws2, now ?ws2 + 600, r)],
            next_timer := Suc (next_timer ?ws2),
            commentSaveTimeouts := (commentSaveTimeouts ?ws2)(r := Some (next_timer ?ws2))\<rparr>"
    by (simp add: on_input_def setTimeout_def Let_def)
  from i2 nr show ?thesis
    unfolding o by (auto simp: timer_inv_def list_all_iff)
qed

lemma timer_inv_on_blur:
  assumes "timer_inv ws"
  shows "timer_inv (on_blur r ws)"
proof (cases "pending_timeout ws r")
  case None
  with assms show ?thesis
    by (simp add: on_blur_def Let_def timer_inv_saveEvaluation timer_inv_set_comment)
next
  case (Some ident)
  from timers_for_cleared [OF assms, of r] Some have "timers_for (clearTimeout ident ws) r = []"
    by simp
  then have nr: "\<forall>t \<in> set (timers (clearTimeout ident ws)). snd (snd t) \<noteq> r"
    by (auto simp: timers_for_def filter_empty_conv)
  from timer_inv_clearTimeout [OF assms, of ident] nr
  have "timer_inv ((clearTimeout ident ws)\<lparr>commentSaveTimeouts := (commentSaveTimeouts ws)(r := None)\<rparr>)"
    by (auto simp: timer_inv_def list_all_iff clearTimeout_def)
  with Some show ?thesis
    by (simp add: on_blur_def Let_def timer_inv_saveEvaluation timer_inv_set_comment)
qed

lemma timer_inv_fire:
  assumes inv: "timer_inv ws" and f: "find (\<lambda>t. fst t = ident) (timers ws) = Some (i, due, r)"
  shows "timer_inv (on_timeout r (ws\<lparr>timers := filter (\<lambda>t. fst t \<noteq> ident) (timers ws)\<rparr>))"
proof -
  from find_SomeD [OF f] have m: "(i, due, r) \<in> set (timers ws)" and ii: "i = ident"
    by auto
  from inv m ii have rec: "commentSaveTimeouts ws r = Some ident"
    by (auto simp: timer_inv_def list_all_iff)
  have "snd (snd t) \<noteq> r" if "t \<in> set (timers ws)" "fst t \<noteq> ident" for t
  proof
    assume "snd (snd t) = r"
    with inv that(1) rec have "fst t = ident" by (auto simp: timer_inv_def list_all_iff)
    with that(2) show False by simp
  qed
  with inv show ?thesis
    by (auto simp: timer_inv_def list_all_iff on_timeout_def saveEvaluation_def
        distinct_map_filter)
qed

lemma timer_inv_step:
  assumes "timer_inv ws" and "step e ws = Some ws'"
  shows "timer_inv ws'"
proof (cases e)
  case (Star r k v)
  with assms show ?thesis
    by (auto simp: click_star_def timer_inv_saveEvaluation timer_inv_currentPaper
        split: if_splits)
next
  case (Source r v)
  with assms show ?thesis
    by (auto simp: click_source_def timer_inv_saveEvaluation timer_inv_currentPaper
        split: if_splits)
next
  case (Clear r c)
  with assms show ?thesis
    by (auto simp: click_clear_def Let_def timer_inv_saveEvaluation timer_inv_currentPaper
        timer_inv_textareas split: if_splits)
next
  case (Input r t)
  with assms timer_inv_on_input [of "ws\<lparr>textareas := (textareas ws)(r := t)\<rparr>" r]
  show ?thesis by (auto simp: timer_inv_textareas split: if_splits)
next
  case (Blur r)
  with assms timer_inv_on_blur [of ws r] show ?thesis by (auto split: if_splits)
next
  case (Tick dt)
  with assms show ?thesis by (auto simp: timer_inv_def)
next
  case (Fire ident)
  with assms timer_inv_fire [of ws ident] show ?thesis
    by (auto split: option.splits if_splits)
qed

lemma timer_inv_run: "timer_inv ws \<Longrightarrow> run es ws = Some ws' \<Longrightarrow> timer_inv ws'"
proof (induction es arbitrary: ws)
  case Nil
  then show ?case by simp
next
  case (Cons e es)
  from Cons.prems(2) obtain ws1 where s: "step e ws = Some ws1" and r: "run es ws1 = Some ws'"
    by (cases "step e ws") simp_all
  from timer_inv_step [OF Cons.prems(1) s] have "timer_inv ws1" .
  from Cons.IH [OF this r] show ?case .
qed

lemma timer_inv_at_most_one:
  assumes "timer_inv ws"
  shows "length (timers_for ws r) \<le> 1"
proof (cases "timers_for ws r")
  case Nil
  then show ?thesis by simp
next
  case (Cons t ts)
  from assms have d: "distinct (map fst (timers_for ws r))"
    by (simp add: timer_inv_def timers_for_def distinct_map_filter)
  have rec: "commentSaveTimeouts ws r = Some (fst u)" if "u \<in> set (timers_for ws r)" for u
  proof -
    from that have m: "u \<in> set (timers ws)" and e: "snd (snd u) = r"
      by (simp_all add: timers_for_def)
    from assms have "\<forall>t \<in> set (timers ws). commentSaveTimeouts ws (snd (snd t)) = Some (fst t)"
      by (simp add: timer_inv_def list_all_iff)
    with m have "commentSaveTimeouts ws (snd (snd u)) = Some (fst u)" by blast
    with e show ?thesis by simp
  qed
  have "ts = []"
  proof (cases ts)
    case Nil
    then show ?thesis .
  next
    case (Cons u us)
    from rec [of t] rec [of u] have "fst t = fst u" by (simp add: \<open>timers_for ws r = t # ts\<close> Cons)
    moreover from d have "fst t \<noteq> fst u" by (simp add: \<open>timers_for ws r = t # ts\<close> Cons)
    ultimately show ?thesis by simp
  qed
  with Cons show ?thesis by simp
qed

lemma cleared_fields:
  "next_timer (case pending_timeout ws r of None \<Rightarrow> ws | Some ident \<Rightarrow> clearTimeout ident ws) =
     next_timer ws"
  "now (case pending_timeout ws r of None \<Rightarrow> ws | Some ident \<Rightarrow> clearTimeout ident ws) = now ws"
  "saves (case pending_timeout ws r of None \<Rightarrow> ws | Some ident \<Rightarrow> clearTimeout ident ws) =
     saves ws"
  "currentPaper (case pending_timeout ws r of None \<Rightarrow> ws | Some ident \<Rightarrow> clearTimeout ident ws) =
     currentPaper ws"
  "textareas (case pending_timeout ws r of None \<Rightarrow> ws | Some ident \<Rightarrow> clearTimeout ident ws) =
     textareas ws"
  "commentSaveTimeouts
     (case pending_timeout ws r of None \<Rightarrow> ws | Some ident \<Rightarrow> clearTimeout ident ws) =
     commentSaveTimeouts ws"
  by (cases "pending_timeout ws r"; simp add: clearTimeout_def)+

lemma on_input_expand:
  "on_input r ws =
     (let ws2 = (case pending_timeout (set_comment r ws) r of
                   None \<Rightarrow> set_comment r ws
                 | Some ident \<Rightarrow> clearTimeout ident (set_comment r ws))
      in ws2\<lparr>timers := timers ws2 @ [(next_timer ws2, now ws2 + 600, r)],
             next_timer := Suc (next_timer ws2),
             commentSaveTimeouts := (commentSaveTimeouts ws2)(r := Some (next_timer ws2))\<rparr>)"
  by (simp add: on_input_def setTimeout_def Let_def)

lemma comment_set_comment:
  "r < length (reviews (currentPaper ws)) \<Longrightarrow>
   comment (metrics (reviews (currentPaper (set_comment r ws)) ! r)) = Some (textareas ws r)"
  by (simp add: set_comment_def update_metrics_def)

lemma set_comment_fields:
  "next_timer (set_comment r ws) = next_timer ws" "now (set_comment r ws) = now ws"
  "saves (set_comment r ws) = saves ws" "timers (set_comment r ws) = timers ws"
  "textareas (set_comment r ws) = textareas ws"
  "commentSaveTimeouts (set_comment r ws) = commentSaveTimeouts ws"
  "length (reviews (currentPaper (set_comment r ws))) = length (reviews (currentPaper ws))"
  by (simp_all add: set_comment_def update_metrics_def)

lemma input_effect:
  assumes inv: "timer_inv ws" and r: "r < length (reviews (currentPaper ws))"
  shows "\<exists>ws1. step (Input r t) ws = Some ws1 \<and> textareas ws1 r = t \<and>
           comment (metrics (reviews (currentPaper ws1) ! r)) = Some t \<and>
           timers_for ws1 r = [(next_timer ws, now ws + 600, r)] \<and>
           saves ws1 = saves ws \<and> now ws1 = now ws \<and> timer_inv ws1"
proof -
  let ?ws0 = "ws\<lparr>textareas := (textareas ws)(r := t)\<rparr>"
  let ?ws1 = "set_comment r ?ws0"
  let ?ws2 = "case pending_timeout ?ws1 r of None \<Rightarrow> ?ws1 | Some ident \<Rightarrow> clearTimeout ident ?ws1"
  from inv have "timer_inv ?ws1" by (simp add: timer_inv_set_comment timer_inv_textareas)
  from timers_for_cleared [OF this, of r] have none: "timers_for ?ws2 r = []" .
  have s: "step (Input r t) ws = Some (on_input r ?ws0)" using r by simp
  have c: "comment (metrics (reviews (currentPaper ?ws1) ! r)) = Some t"
    using comment_set_comment [of r ?ws0] r by simp
  have i: "timer_inv (on_input r ?ws0)"
    using inv by (intro timer_inv_on_input) (simp add: timer_inv_textareas)
  have "timers_for (on_input r ?ws0) r = timers_for ?ws2 r @ [(next_timer ?ws2, now ?ws2 + 600, r)]"
    by (simp add: on_input_expand Let_def timers_for_def)
  then have tf: "timers_for (on_input r ?ws0) r = [(next_timer ws, now ws + 600, r)]"
    by (simp add: none cleared_fields set_comment_fields)
  have f: "textareas (on_input r ?ws0) r = t" "saves (on_input r ?ws0) = saves ws"
    "now (on_input r ?ws0) = now ws"
    "currentPaper (on_input r ?ws0) = currentPaper ?ws1"
    by (simp_all add: on_input_expand Let_def cleared_fields set_comment_fields)
  from s c i tf f show ?thesis by simp
qed

lemma blur_effect:
  assumes inv: "timer_inv ws" and r: "r < length (reviews (currentPaper ws))"
  shows "\<exists>ws3. step (Blur r) ws = Some ws3 \<and> timers_for ws3 r = [] \<and>
           saves ws3 = (By_blur r, currentPaper ws3) # saves ws \<and>
           comment (metrics (reviews (currentPaper ws3) ! r)) = Some (textareas ws r) \<and>
           timer_inv ws3"
proof -
  have s: "step (Blur r) ws = Some (on_blur r ws)" using r by simp
  have i: "timer_inv (on_blur r ws)" using inv by (rule timer_inv_on_blur)
  from timers_for_cleared [OF inv, of r]
  have tf: "timers_for (on_blur r ws) r = []"
    by (cases "pending_timeout ws r")
      (simp_all add: on_blur_def Let_def saveEvaluation_def set_comment_def timers_for_def
        clearTimeout_def)
  have sv: "saves (on_blur r ws) = (By_blur r, currentPaper (on_blur r ws)) # saves ws"
    by (cases "pending_timeout ws r")
      (simp_all add: on_blur_def Let_def saveEvaluation_def set_comment_def clearTimeout_def)
  have c: "comment (metrics (reviews (currentPaper (on_blur r ws)) ! r)) = Some (textareas ws r)"
    using r by (cases "pending_timeout ws r")
      (simp_all add: on_blur_def Let_def saveEvaluation_def set_comment_def clearTimeout_def
        update_metrics_def)
  from s i tf sv c show ?thesis by simp
qed

lemma timer_saves_cong: "saves ws' = saves ws \<Longrightarrow> timer_saves ws' r = timer_saves ws r"
  by (simp add: timer_saves_def)

lemma filter_filter_le: "length (filter P (filter Q xs)) \<le> length (filter P xs)"
  by (induction xs) (auto simp: le_SucI)

lemma filter_swap: "filter P (filter Q xs) = filter Q (filter P xs)"
  by (induction xs) auto

lemma on_input_timers:
  "\<exists>kept. set kept \<subseteq> set (timers ws) \<and> length (filter (\<lambda>t. snd (snd t) = r) kept)
        \<le> length (filter (\<lambda>t. snd (snd t) = r) (timers ws)) \<and>
     timers (on_input r' ws) = kept @ [(next_timer ws, now ws + 600, r')] \<and>
     saves (on_input r' ws) = saves ws \<and> now (on_input r' ws) = now ws"
proof (cases "pending_timeout (set_comment r' ws) r'")
  case None
  then show ?thesis
    by (intro exI [of _ "timers ws"])
      (simp add: on_input_expand Let_def set_comment_fields)
next
  case (Some ident)
  have "length (filter (\<lambda>t. snd (snd t) = r) (filter (\<lambda>t. fst t \<noteq> ident) (timers ws)))
          \<le> length (filter (\<lambda>t. snd (snd t) = r) (timers ws))"
    by (rule filter_filter_le)
  with Some show ?thesis
    by (intro exI [of _ "filter (\<lambda>t. fst t \<noteq> ident) (timers ws)"])
      (auto simp: on_input_expand Let_def set_comment_fields clearTimeout_def)
qed

lemma on_blur_timers:
  "set (timers (on_blur r' ws)) \<subseteq> set (timers ws) \<and>
   length (timers_for (on_blur r' ws) r) \<le> length (timers_for ws r) \<and>
   saves (on_blur r' ws) = (By_blur r', currentPaper (on_blur r' ws)) # saves ws \<and>
   now (on_blur r' ws) = now ws"
proof (cases "pending_timeout ws r'")
  case None
  then show ?thesis
    by (simp add: on_blur_def Let_def saveEvaluation_def set_comment_def timers_for_def)
next
  case (Some ident)
  have "length (filter (\<lambda>t. snd (snd t) = r) (filter (\<lambda>t. fst t \<noteq> ident) (timers ws)))
          \<le> length (filter (\<lambda>t. snd (snd t) = r) (timers ws))"
    by (rule filter_filter_le)
  with Some show ?thesis
    by (auto simp: on_blur_def Let_def saveEvaluation_def set_comment_def timers_for_def
        clearTimeout_def)
qed

lemma window_step:
  assumes b: "\<forall>t \<in> set (timers_for ws r). T \<le> fst (snd t)"
    and w: "T \<le> now ws + 600"
    and s: "step e ws = Some ws'"
  shows "(\<forall>t \<in> set (timers_for ws' r). T \<le> fst (snd t)) \<and> T \<le> now ws' + 600 \<and>
         now ws \<le> now ws' \<and> (now ws' < T \<longrightarrow> timer_saves ws' r = timer_saves ws r)"
proof (cases e)
  case (Star r' k v)
  with s have "ws' = saveEvaluation By_star
      (ws\<lparr>currentPaper := updatePaperStatus
         (update_metrics (currentPaper ws) r' (\<lambda>m. set_metric m k v))\<rparr>)"
    by (auto simp: click_star_def split: if_splits)
  with b w show ?thesis
    by (simp add: timer_saves_def saveEvaluation_def timers_for_def)
next
  case (Source r' v)
  with s have "ws' = saveEvaluation By_source
      (ws\<lparr>currentPaper := updatePaperStatus
         (update_metrics (currentPaper ws) r' (\<lambda>m. m\<lparr>source := Some v\<rparr>))\<rparr>)"
    by (auto simp: click_source_def split: if_splits)
  with b w show ?thesis
    by (simp add: timer_saves_def saveEvaluation_def timers_for_def)
next
  case (Clear r' c)
  with s have "ws' = click_clear r' c ws" by (auto split: if_splits)
  with b w show ?thesis
    by (simp add: click_clear_def Let_def timer_saves_def saveEvaluation_def timers_for_def)
next
  case (Input r' t)
  let ?ws0 = "ws\<lparr>textareas := (textareas ws)(r' := t)\<rparr>"
  from Input s have ws': "ws' = on_input r' ?ws0" by (auto split: if_splits)
  from on_input_timers [where r = r and ws = ?ws0 and r' = r'] obtain kept
    where k: "set kept \<subseteq> set (timers ws)"
      and t: "timers ws' = kept @ [(next_timer ws, now ws + 600, r')]"
      and sv: "saves ws' = saves ws" and n: "now ws' = now ws"
    unfolding ws' by auto
  have "T \<le> fst (snd u)" if "u \<in> set (timers_for ws' r)" for u
  proof -
    have "timers_for ws' r =
            filter (\<lambda>t. snd (snd t) = r) kept @
            filter (\<lambda>t. snd (snd t) = r) [(next_timer ws, now ws + 600, r')]"
      by (simp only: timers_for_def t filter_append)
    with that have "u \<in> set (filter (\<lambda>t. snd (snd t) = r) kept) \<or>
        u \<in> set (filter (\<lambda>t. snd (snd t) = r) [(next_timer ws, now ws + 600, r')])"
      by (simp only: set_append Un_iff)
    then have "u \<in> set kept \<and> snd (snd u) = r \<or> u = (next_timer ws, now ws + 600, r')"
      by (auto split: if_splits)
    then show ?thesis
    proof
      assume "u \<in> set kept \<and> snd (snd u) = r"
      with k have "u \<in> set (timers_for ws r)" by (auto simp: timers_for_def)
      with b show ?thesis by blast
    next
      assume "u = (next_timer ws, now ws + 600, r')"
      with w show ?thesis by simp
    qed
  qed
  with w n timer_saves_cong [OF sv, of r] show ?thesis by simp
next
  case (Blur r')
  with s have ws': "ws' = on_blur r' ws" by (auto split: if_splits)
  from on_blur_timers [of r' ws r] have k: "set (timers ws') \<subseteq> set (timers ws)"
    and sv: "saves ws' = (By_blur r', currentPaper ws') # saves ws" and n: "now ws' = now ws"
    unfolding ws' by simp_all
  from k b have "\<forall>t \<in> set (timers_for ws' r). T \<le> fst (snd t)"
    by (auto simp: timers_for_def)
  moreover from sv have "timer_saves ws' r = timer_saves ws r" by (simp add: timer_saves_def)
  ultimately show ?thesis using w n by simp
next
  case (Tick dt)
  with s have "ws' = ws\<lparr>now := now ws + dt\<rparr>" by simp
  with b w show ?thesis by (simp add: timers_for_def timer_saves_def)
next
  case (Fire ident)
  with s obtain i due r0 where f: "find (\<lambda>t. fst t = ident) (timers ws) = Some (i, due, r0)"
    and d: "due \<le> now ws"
    and ws': "ws' = on_timeout r0 (ws\<lparr>timers := filter (\<lambda>t. fst t \<noteq> ident) (timers ws)\<rparr>)"
    by (auto split: option.splits if_splits)
  from find_SomeD [OF f] have m: "(i, due, r0) \<in> set (timers ws)" by blast
  have tb: "\<forall>t \<in> set (timers_for ws' r). T \<le> fst (snd t)"
    using b by (auto simp: ws' on_timeout_def saveEvaluation_def timers_for_def)
  have n: "now ws' = now ws" by (simp add: ws' on_timeout_def saveEvaluation_def)
  have "timer_saves ws' r = timer_saves ws r" if "now ws' < T"
  proof (cases "r0 = r")
    case True
    with m have "(i, due, r0) \<in> set (timers_for ws r)" by (simp add: timers_for_def)
    with b have "T \<le> due" by fastforce
    with d that n show ?thesis by simp
  next
    case False
    then show ?thesis
      by (simp add: ws' on_timeout_def timer_saves_def saveEvaluation_def)
  qed
  with tb n w show ?thesis by simp
qed

lemma window_run:
  assumes "\<forall>t \<in> set (timers_for ws r). T \<le> fst (snd t)" and "T \<le> now ws + 600"
    and "run es ws = Some ws'" and "now ws' < T"
  shows "timer_saves ws' r = timer_saves ws r"
  using assms
proof (induction es arbitrary: ws)
  case Nil
  then show ?case by simp
next
  case (Cons e es)
  from Cons.prems(3) obtain ws1 where s: "step e ws = Some ws1" and r: "run es ws1 = Some ws'"
    by (cases "step e ws") simp_all
  from window_step [OF Cons.prems(1,2) s]
  have b1: "\<forall>t \<in> set (timers_for ws1 r). T \<le> fst (snd t)" and w1: "T \<le> now ws1 + 600"
    and sv: "now ws1 < T \<longrightarrow> timer_saves ws1 r = timer_saves ws r" by simp_all
  have mono: "now a \<le> now c" if "run xs a = Some c" for xs a c
    using that
  proof (induction xs arbitrary: a)
    case Nil
    then show ?case by simp
  next
    case (Cons x xs)
    from Cons.prems obtain a1 where s1: "step x a = Some a1" and r1: "run xs a1 = Some c"
      by (cases "step x a") simp_all
    have "now a \<le> now a1"
      using window_step [of a 0 0 x a1] s1 by simp
    with Cons.IH [OF r1] show ?case by simp
  qed
  from mono [OF r] Cons.prems(4) have "now ws1 < T" by simp
  with sv Cons.IH [OF b1 w1 r Cons.prems(4)] show ?case by simp
qed

lemma potential_step:
  assumes "\<not> is_input r e" and s: "step e ws = Some ws'"
  shows "timer_saves ws' r + length (timers_for ws' r)
           \<le> timer_saves ws r + length (timers_for ws r)"
proof (cases e)
  case (Star r' k v)
  with s have "ws' = saveEvaluation By_star
      (ws\<lparr>currentPaper := updatePaperStatus
         (update_metrics (currentPaper ws) r' (\<lambda>m. set_metric m k v))\<rparr>)"
    by (auto simp: click_star_def split: if_splits)
  then show ?thesis by (simp add: timer_saves_def saveEvaluation_def timers_for_def)
next
  case (Source r' v)
  with s have "ws' = saveEvaluation By_source
      (ws\<lparr>currentPaper := updatePaperStatus
         (update_metrics (currentPaper ws) r' (\<lambda>m. m\<lparr>source := Some v\<rparr>))\<rparr>)"
    by (auto simp: click_source_def split: if_splits)
  then show ?thesis by (simp add: timer_saves_def saveEvaluation_def timers_for_def)
next
  case (Clear r' c)
  with s have "ws' = click_clear r' c ws" by (auto split: if_splits)
  then show ?thesis
    by (simp add: click_clear_def Let_def timer_saves_def saveEvaluation_def timers_for_def)
next
  case (Input r' t)
  let ?ws0 = "ws\<lparr>textareas := (textareas ws)(r' := t)\<rparr>"
  from Input assms(1) have ne: "r' \<noteq> r" by simp
  from Input s have ws': "ws' = on_input r' ?ws0" by (auto split: if_splits)
  from on_input_timers [where r = r and ws = ?ws0 and r' = r'] obtain kept
    where k: "length (filter (\<lambda>t. snd (snd t) = r) kept)
                \<le> length (filter (\<lambda>t. snd (snd t) = r) (timers ws))"
      and t: "timers ws' = kept @ [(next_timer ws, now ws + 600, r')]"
      and sv: "saves ws' = saves ws"
    unfolding ws' by auto
  from t ne k have "length (timers_for ws' r) \<le> length (timers_for ws r)"
    by (simp add: timers_for_def)
  with timer_saves_cong [OF sv, of r] show ?thesis by simp
next
  case (Blur r')
  with s have ws': "ws' = on_blur r' ws" by (auto split: if_splits)
  from on_blur_timers [of r' ws r]
  have k: "length (timers_for ws' r) \<le> length (timers_for ws r)"
    and sv: "saves ws' = (By_blur r', currentPaper ws') # saves ws"
    unfolding ws' by simp_all
  from sv have "timer_saves ws' r = timer_saves ws r" by (simp add: timer_saves_def)
  with k show ?thesis by simp
next
  case (Tick dt)
  with s have "ws' = ws\<lparr>now := now ws + dt\<rparr>" by simp
  then show ?thesis by (simp add: timers_for_def timer_saves_def)
next
  case (Fire ident)
  with s obtain i due r0 where f: "find (\<lambda>t. fst t = ident) (timers ws) = Some (i, due, r0)"
    and ws': "ws' = on_timeout r0 (ws\<lparr>timers := filter (\<lambda>t. fst t \<noteq> ident) (timers ws)\<rparr>)"
    by (auto split: option.splits if_splits)
  from find_SomeD [OF f] have m: "(i, due, r0) \<in> set (timers ws)" by blast
  from find_SomeD [OF f] have ii: "i = ident" by simp
  have tw: "timers ws' = filter (\<lambda>t. fst t \<noteq> ident) (timers ws)"
    by (simp add: ws' on_timeout_def saveEvaluation_def)
  have tf: "timers_for ws' r = filter (\<lambda>t. fst t \<noteq> ident) (timers_for ws r)"
    unfolding timers_for_def tw by (rule filter_swap)
  show ?thesis
  proof (cases "r0 = r")
    case True
    with m ii have "(ident, due, r) \<in> set (timers_for ws r)" by (simp add: timers_for_def)
    then have "length (filter (\<lambda>t. fst t \<noteq> ident) (timers_for ws r)) < length (timers_for ws r)"
      by (intro length_filter_less [of "(ident, due, r)"]) simp_all
    with True show ?thesis
      unfolding tf by (simp add: ws' on_timeout_def timer_saves_def saveEvaluation_def)
  next
    case False
    have "length (filter (\<lambda>t. fst t \<noteq> ident) (timers_for ws r)) \<le> length (timers_for ws r)"
      by simp
    with False show ?thesis
      unfolding tf by (simp add: ws' on_timeout_def timer_saves_def saveEvaluation_def)
  qed
qed

lemma potential_run:
  assumes "\<not> list_ex (is_input r) es" and "run es ws = Some ws'"
  shows "timer_saves ws' r + length (timers_for ws' r)
           \<le> timer_saves ws r + length (timers_for ws r)"
  using assms
proof (induction es arbitrary: ws)
  case Nil
  then show ?case by simp
next
  case (Cons e es)
  from Cons.prems(2) obtain ws1 where s: "step e ws = Some ws1" and r: "run es ws1 = Some ws'"
    by (cases "step e ws") simp_all
  from Cons.prems(1) have e: "\<not> is_input r e" and es: "\<not> list_ex (is_input r) es" by simp_all
  from potential_step [OF e s] Cons.IH [OF es r] show ?case by simp
qed

lemma saves_monotone_step:
  "step e ws = Some ws' \<Longrightarrow> timer_saves ws r \<le> timer_saves ws' r"
proof (cases e)
  case (Input r' t)
  assume "step e ws = Some ws'"
  with Input have "ws' = on_input r' (ws\<lparr>textareas := (textareas ws)(r' := t)\<rparr>)"
    by (auto split: if_splits)
  with on_input_timers [where r = r and ws = "ws\<lparr>textareas := (textareas ws)(r' := t)\<rparr>" and r' = r']
  have "saves ws' = saves ws" by auto
  then show ?thesis by (simp add: timer_saves_def)
next
  case (Blur r')
  assume "step e ws = Some ws'"
  with Blur have "ws' = on_blur r' ws" by (auto split: if_splits)
  with on_blur_timers [of r' ws r] have "saves ws' = (By_blur r', currentPaper ws') # saves ws"
    by simp
  then show ?thesis by (simp add: timer_saves_def)
qed (auto simp: click_star_def click_source_def click_clear_def Let_def timer_saves_def
      saveEvaluation_def on_timeout_def split: if_splits option.splits)

lemma saves_monotone_run:
  "run es ws = Some ws' \<Longrightarrow> timer_saves ws r \<le> timer_saves ws' r"
proof (induction es arbitrary: ws)
  case Nil
  then show ?case by simp
next
  case (Cons e es)
  from Cons.prems obtain ws1 where s: "step e ws = Some ws1" and r: "run es ws1 = Some ws'"
    by (cases "step e ws") simp_all
  from saves_monotone_step [OF s, of r] Cons.IH [OF r] show ?case by simp
qed

text \<open>
  Claim C8: in every state the page can reach, and for every review of the paper,
  \<^item> the browser holds at most one save timeout for the comment field of the review;
  \<^item> a keystroke puts the new text into the stored comment at once, saves nothing, and
    leaves exactly one timeout for the review, due 600 ms later; whatever happens next,
    no timeout of the review saves before those 600 ms have passed, and until the next
    keystroke in that field at most one does;
  \<^item> losing focus leaves no timeout for the review and makes exactly one save, of a paper
    whose stored comment is the full text of the field; until the next keystroke in that
    field no timeout of the review saves.
\<close>

theorem C8_debounced_comment_save:
  assumes reach: "run evs (initial_workspace p) = Some ws"
    and r: "r < length (reviews (currentPaper ws))"
  shows "length (timers_for ws r) \<le> 1 \<and>
     (\<exists>ws1. step (Input r t) ws = Some ws1 \<and>
        comment (metrics (reviews (currentPaper ws1) ! r)) = Some t \<and>
        timers_for ws1 r = [(next_timer ws, now ws + 600, r)] \<and>
        saves ws1 = saves ws \<and>
        (\<forall>es ws2. run es ws1 = Some ws2 \<longrightarrow>
           (now ws2 < now ws + 600 \<longrightarrow> timer_saves ws2 r = timer_saves ws r) \<and>
           (\<not> list_ex (is_input r) es \<longrightarrow> timer_saves ws2 r \<le> timer_saves ws r + 1))) \<and>
     (\<exists>ws3. step (Blur r) ws = Some ws3 \<and> timers_for ws3 r = [] \<and>
        saves ws3 = (By_blur r, currentPaper ws3) # saves ws \<and>
        comment (metrics (reviews (currentPaper ws3) ! r)) = Some (textareas ws r) \<and>
        (\<forall>es ws4. run es ws3 = Some ws4 \<longrightarrow> \<not> list_ex (is_input r) es \<longrightarrow>
           timer_saves ws4 r = timer_saves ws r))"
proof -
  from timer_inv_run [OF timer_inv_initial reach] have inv: "timer_inv ws" .
  have one: "length (timers_for ws r) \<le> 1" using inv by (rule timer_inv_at_most_one)
  from input_effect [OF inv r, of t] obtain ws1
    where i: "step (Input r t) ws = Some ws1"
      "comment (metrics (reviews (currentPaper ws1) ! r)) = Some t"
      "timers_for ws1 r = [(next_timer ws, now ws + 600, r)]"
      "saves ws1 = saves ws" "now ws1 = now ws"
    by blast
  have s1: "timer_saves ws1 r = timer_saves ws r" using i(4) by (rule timer_saves_cong)
  have w: "timer_saves ws2 r = timer_saves ws r"
    if "run es ws1 = Some ws2" "now ws2 < now ws + 600" for es ws2
  proof -
    have b: "\<forall>u \<in> set (timers_for ws1 r). now ws + 600 \<le> fst (snd u)" by (simp add: i(3))
    have c: "now ws + 600 \<le> now ws1 + 600" by (simp add: i(5))
    from window_run [OF b c that] s1 show ?thesis by simp
  qed
  have q: "timer_saves ws2 r \<le> timer_saves ws r + 1"
    if "run es ws1 = Some ws2" "\<not> list_ex (is_input r) es" for es ws2
    using potential_run [OF that(2,1)] s1 by (simp add: i(3))
  from blur_effect [OF inv r] obtain ws3
    where b: "step (Blur r) ws = Some ws3" "timers_for ws3 r = []"
      "saves ws3 = (By_blur r, currentPaper ws3) # saves ws"
      "comment (metrics (reviews (currentPaper ws3) ! r)) = Some (textareas ws r)"
    by blast
  have s3: "timer_saves ws3 r = timer_saves ws r" by (simp add: timer_saves_def b(3))
  have z: "timer_saves ws4 r = timer_saves ws r"
    if "run es ws3 = Some ws4" "\<not> list_ex (is_input r) es" for es ws4
    using potential_run [OF that(2,1)] saves_monotone_run [OF that(1), of r] s3
    by (simp add: b(2))
  from one i w q b z show ?thesis by blast
qed

lemma typing_hello_runs:
  "\<exists>ws. run typing_hello (initial_workspace paper_AB) = Some ws \<and>
     textareas ws 0 = ''hello'' \<and> saves ws = [] \<and> timers ws = [(5, 1000, 0)] \<and>
     length (reviews (currentPaper ws)) = 2"
  by (simp add: typing_hello_def initial_workspace_def paper_AB_def mk_paper_def
      on_input_def set_comment_def update_metrics_def pending_timeout_def clearTimeout_def
      setTimeout_def Let_def)

theorem C8_debounced_comment_save_witness:
  "\<exists>ws. run typing_hello (initial_workspace paper_AB) = Some ws \<and>
     0 < length (reviews (currentPaper ws)) \<and> saves ws = [] \<and>
     length (timers_for ws 0) \<le> 1 \<and>
     (\<exists>ws3. step (Blur 0) ws = Some ws3 \<and> timers_for ws3 0 = [] \<and>
        map fst (saves ws3) = [By_blur 0] \<and>
        comment (metrics (reviews (currentPaper ws3) ! 0)) = Some ''hello'')"
proof -
  from typing_hello_runs obtain ws
    where run: "run typing_hello (initial_workspace paper_AB) = Some ws"
      and f: "textareas ws 0 = ''hello''" "saves ws = []"
      and l: "length (reviews (currentPaper ws)) = 2" by blast
  from l have r: "0 < length (reviews (currentPaper ws))" by simp
  from C8_debounced_comment_save [OF run r, of "''hello!''"]
  have one: "length (timers_for ws 0) \<le> 1"
    and "\<exists>ws3. step (Blur 0) ws = Some ws3 \<and> timers_for ws3 0 = [] \<and>
        saves ws3 = (By_blur 0, currentPaper ws3) # saves ws \<and>
        comment (metrics (reviews (currentPaper ws3) ! 0)) = Some (textareas ws 0)"
    by blast+
  then obtain ws3 where "step (Blur 0) ws = Some ws3" "timers_for ws3 0 = []"
    "saves ws3 = (By_blur 0, currentPaper ws3) # saves ws"
    "comment (metrics (reviews (currentPaper ws3) ! 0)) = Some (textareas ws 0)" by blast
  with f have "step (Blur 0) ws = Some ws3 \<and> timers_for ws3 0 = [] \<and>
        map fst (saves ws3) = [By_blur 0] \<and>
        comment (metrics (reviews (currentPaper ws3) ! 0)) = Some ''hello''" by simp
  then have e3: "\<exists>ws3. step (Blur 0) ws = Some ws3 \<and> timers_for ws3 0 = [] \<and>
        map fst (saves ws3) = [By_blur 0] \<and>
        comment (metrics (reviews (currentPaper ws3) ! 0)) = Some ''hello''" by (rule exI)
  show ?thesis
    by (rule exI [of _ ws]) (intro conjI run r f(2) one e3)
qed

end
